theory Spec2Isabelle
  imports Main "HOL-Library.Word" "HOL-Library.Multiset" "HOL-Library.Monad_Syntax"
begin

section \<open>Machine types and array slots\<close>

text \<open>
  \<^verbatim>\<open>unsigned long\<close> is 32 bits wide on the Arduino targets of \<^verbatim>\<open>async.h\<close>
  (AVR, SAM, ESP): arithmetic on it wraps modulo \<open>2 ^ 32\<close>. The sizes \<^verbatim>\<open>m_size\<close>,
  \<^verbatim>\<open>curr_size\<close> and the \<^verbatim>\<open>index\<close> parameters are \<^verbatim>\<open>int\<close>; they are
  modelled as unbounded integers (the registry never holds more than 32 tasks, so no
  arithmetic on them overflows). The \<^verbatim>\<open>unsigned int\<close> loop counters are naturals;
  a comparison \<^verbatim>\<open>iii < curr_size\<close> reads \<open>int iii < curr_size\<close>, which is what C's
  conversion gives for the non-negative sizes of every reachable registry.
\<close>

type_synonym ulong = "32 word"

definition MAX_FUNCTIONARRAY_SIZE :: int where
  "MAX_FUNCTIONARRAY_SIZE = 32"

text \<open>
  A C array is a list of its slots. Reading or writing outside the allocated slots is
  undefined behaviour in C; the model makes it a fault, \<open>None\<close>.
\<close>

definition slot :: "'a list \<Rightarrow> int \<Rightarrow> 'a option" where
  "slot xs i = (if 0 \<le> i \<and> i < int (length xs) then Some (xs ! nat i) else None)"

definition put_slot :: "'a list \<Rightarrow> int \<Rightarrow> 'a \<Rightarrow> 'a list option" where
  "put_slot xs i v = (if 0 \<le> i \<and> i < int (length xs) then Some (xs[nat i := v]) else None)"

text \<open>C's \<^verbatim>\<open>/\<close> on \<^verbatim>\<open>int\<close> truncates towards zero.\<close>

definition c_div :: "int \<Rightarrow> int \<Rightarrow> int" where
  "c_div a b = sgn a * sgn b * (\<bar>a\<bar> div \<bar>b\<bar>)"

section \<open>\<^verbatim>\<open>struct function\<close>\<close>

text \<open>
  The wrapped callback \<^verbatim>\<open>m_func\<close> is a pointer: \<open>None\<close> is \<^verbatim>\<open>nullptr\<close>, the value of a
  default-constructed \<^verbatim>\<open>function\<close>.
\<close>

record 'f function_t =
  m_func :: "'f option"
  delay_time_us :: ulong
  step :: ulong
  id_tag :: ulong

definition function_default :: "'f function_t" where
  "function_default = \<lparr>m_func = None, delay_time_us = 0, step = 1, id_tag = 0\<rparr>"

definition function_ctor :: "'f option \<Rightarrow> 'f function_t" where
  "function_ctor func = function_default\<lparr>m_func := func\<rparr>"

definition function_copy :: "'f function_t \<Rightarrow> 'f function_t" where
  "function_copy other =
     \<lparr>m_func = m_func other, delay_time_us = delay_time_us other,
      step = step other, id_tag = id_tag other\<rparr>"

definition get_delay :: "'f function_t \<Rightarrow> bool \<Rightarrow> ulong" where
  "get_delay f microseconds =
     (if microseconds then delay_time_us f else delay_time_us f div 1000)"

definition set_delay :: "'f function_t \<Rightarrow> ulong \<Rightarrow> bool \<Rightarrow> 'f function_t" where
  "set_delay f d microseconds =
     (if microseconds then f\<lparr>delay_time_us := d\<rparr> else f\<lparr>delay_time_us := d * 1000\<rparr>)"

definition getStep :: "'f function_t \<Rightarrow> ulong" where
  "getStep f = step f"

definition setStep :: "'f function_t \<Rightarrow> ulong \<Rightarrow> 'f function_t" where
  "setStep f newSize = f\<lparr>step := newSize\<rparr>"

definition getId :: "'f function_t \<Rightarrow> ulong" where
  "getId f = id_tag f"

definition setId :: "'f function_t \<Rightarrow> ulong \<Rightarrow> 'f function_t" where
  "setId f newId = f\<lparr>id_tag := newId\<rparr>"

text \<open>\<^verbatim>\<open>_swap(first, other)\<close> exchanges two values through a temporary.\<close>

definition swap_vals :: "'a \<Rightarrow> 'a \<Rightarrow> 'a \<times> 'a" where
  "swap_vals first other = (let tmp = first in (other, tmp))"

text \<open>\<^verbatim>\<open>function::swap\<close>: the four fields are exchanged one by one; the result is the pair
  (this, other) after the call.\<close>

definition swap :: "'f function_t \<Rightarrow> 'f function_t \<Rightarrow> 'f function_t \<times> 'f function_t" where
  "swap this other =
     (let (f1, f2) = swap_vals (m_func this) (m_func other);
          (s1, s2) = swap_vals (step this) (step other);
          (d1, d2) = swap_vals (delay_time_us this) (delay_time_us other);
          (i1, i2) = swap_vals (id_tag this) (id_tag other)
      in (this\<lparr>m_func := f1, step := s1, delay_time_us := d1, id_tag := i1\<rparr>,
          other\<lparr>m_func := f2, step := s2, delay_time_us := d2, id_tag := i2\<rparr>))"

text \<open>\<^verbatim>\<open>operator=\<close> takes its argument by value and swaps with the copy: the new value of
  the assigned object.\<close>

definition assign :: "'f function_t \<Rightarrow> 'f function_t \<Rightarrow> 'f function_t" where
  "assign this other = fst (swap this (function_copy other))"

definition function_eq :: "'f function_t \<Rightarrow> 'f function_t \<Rightarrow> bool" where
  "function_eq this other =
     (m_func this = m_func other \<and> delay_time_us this = delay_time_us other \<and>
      step this = step other \<and> id_tag this = id_tag other)"

section \<open>\<^verbatim>\<open>struct Async\<close>: the registry\<close>

record 'f Async =
  m_size :: int
  m_permsize :: int
  curr_size :: int
  tasks :: "'f function_t list"

definition new_array :: "int \<Rightarrow> 'f function_t list" where
  "new_array n = replicate (nat n) function_default"

definition Async_init :: "'f Async" where
  "Async_init = \<lparr>m_size = 1, m_permsize = 1, curr_size = 0, tasks = new_array 1\<rparr>"

definition size_A :: "'f Async \<Rightarrow> int" where
  "size_A a = curr_size a"

definition max_size :: "'f Async \<Rightarrow> int" where
  "max_size a = m_size a"

text \<open>The live range: the slots \<open>0 .. curr_size - 1\<close>, what \<^verbatim>\<open>getAll\<close> exposes.\<close>

definition live :: "'f Async \<Rightarrow> 'f function_t list" where
  "live a = take (nat (curr_size a)) (tasks a)"

subsection \<open>\<^verbatim>\<open>sort\<close>\<close>

text \<open>
  The two loops of \<^verbatim>\<open>Async::sort\<close>. \<^verbatim>\<open>smallestIndex\<close> is declared before the outer
  loop and is never reset, so each inner scan starts from the value the previous one
  left. The last argument collects, in order, the index of every slot of \<^verbatim>\<open>tasks\<close>
  the code touches.
\<close>

function sort_scan ::
  "'f function_t list \<Rightarrow> int \<Rightarrow> nat \<Rightarrow> nat \<Rightarrow> nat list \<Rightarrow> (nat \<times> nat list) option" where
  "sort_scan ts n iii smallestIndex acc =
     (if int iii < n then
        do {
          a \<leftarrow> slot ts (int iii);
          b \<leftarrow> slot ts (int smallestIndex);
          sort_scan ts n (iii + 1)
            (if get_delay a True < get_delay b True then iii else smallestIndex)
            (acc @ [iii, smallestIndex])
        }
      else Some (smallestIndex, acc))"
  by pat_completeness auto
termination
  by (relation "measure (\<lambda>(ts, n, iii, sm, acc). nat (n - int iii))") auto

declare sort_scan.simps [simp del]

definition swap_slots :: "'f function_t list \<Rightarrow> nat \<Rightarrow> nat \<Rightarrow> 'f function_t list option" where
  "swap_slots ts i j =
     do {
       a \<leftarrow> slot ts (int i);
       b \<leftarrow> slot ts (int j);
       ts1 \<leftarrow> put_slot ts (int i) (fst (swap a b));
       put_slot ts1 (int j) (snd (swap a b))
     }"

function sort_pass ::
  "'f function_t list \<Rightarrow> int \<Rightarrow> nat \<Rightarrow> nat \<Rightarrow> nat list \<Rightarrow>
   ('f function_t list \<times> nat list) option" where
  "sort_pass ts n currentIndex smallestIndex acc =
     (if int currentIndex < n - 1 then
        do {
          found \<leftarrow> sort_scan ts n currentIndex smallestIndex acc;
          ts' \<leftarrow> (if currentIndex \<noteq> fst found then swap_slots ts currentIndex (fst found)
                  else Some ts);
          sort_pass ts' n (currentIndex + 1) (fst found)
            (if currentIndex \<noteq> fst found then snd found @ [currentIndex, fst found]
             else snd found)
        }
      else Some (ts, acc))"
  by pat_completeness auto
termination
  by (relation "measure (\<lambda>(ts, n, cur, sm, acc). nat (n - int cur))") auto

declare sort_pass.simps [simp del]

definition sort_traced :: "'f Async \<Rightarrow> ('f Async \<times> nat list) option" where
  "sort_traced a =
     (if curr_size a = 0 then Some (a, [])
      else do {
        r \<leftarrow> sort_pass (tasks a) (curr_size a) 0 0 [];
        Some (a\<lparr>tasks := fst r\<rparr>, snd r)
      })"

definition sort_A :: "'f Async \<Rightarrow> 'f Async option" where
  "sort_A a = map_option fst (sort_traced a)"

subsection \<open>\<^verbatim>\<open>offsetDelayBy\<close>\<close>

function offset_loop ::
  "'f function_t list \<Rightarrow> int \<Rightarrow> ulong \<Rightarrow> nat \<Rightarrow> 'f function_t list option" where
  "offset_loop ts n offsetDelay iii =
     (if int iii < n then
        do {
          t \<leftarrow> slot ts (int iii);
          ts' \<leftarrow> put_slot ts (int iii)
                  (if get_delay t True \<ge> offsetDelay
                   then set_delay t (get_delay t True - offsetDelay) True
                   else set_delay t 0 True);
          offset_loop ts' n offsetDelay (iii + 1)
        }
      else Some ts)"
  by pat_completeness auto
termination
  by (relation "measure (\<lambda>(ts, n, x, iii). nat (n - int iii))") auto

declare offset_loop.simps [simp del]

definition offsetDelayBy :: "ulong \<Rightarrow> 'f Async \<Rightarrow> 'f Async option" where
  "offsetDelayBy offsetDelay a =
     do {
       ts \<leftarrow> offset_loop (tasks a) (curr_size a) offsetDelay 0;
       Some (a\<lparr>tasks := ts\<rparr>)
     }"

subsection \<open>\<^verbatim>\<open>allocate\<close>, \<^verbatim>\<open>deallocate\<close>\<close>

text \<open>
  The copy loop of both functions: \<^verbatim>\<open>newTasks[iii] = tasks[iii]\<close> for \<open>iii\<close> below
  the bound. \<^verbatim>\<open>new function<F>[newSize]\<close> yields \<open>newSize\<close> default-constructed slots;
  running out of memory is not modelled.
\<close>

function copy_loop ::
  "'f function_t list \<Rightarrow> 'f function_t list \<Rightarrow> int \<Rightarrow> nat \<Rightarrow> 'f function_t list option" where
  "copy_loop src newTasks n iii =
     (if int iii < n then
        do {
          t \<leftarrow> slot src (int iii);
          old \<leftarrow> slot newTasks (int iii);
          newTasks' \<leftarrow> put_slot newTasks (int iii) (assign old t);
          copy_loop src newTasks' n (iii + 1)
        }
      else Some newTasks)"
  by pat_completeness auto
termination
  by (relation "measure (\<lambda>(src, dst, n, iii). nat (n - int iii))") auto

declare copy_loop.simps [simp del]

definition allocate :: "int \<Rightarrow> 'f Async \<Rightarrow> 'f Async option" where
  "allocate newSize a =
     do {
       newTasks \<leftarrow> (if newSize > m_size a
                     then copy_loop (tasks a) (new_array newSize) (curr_size a) 0
                     else Some (new_array newSize));
       Some (a\<lparr>tasks := newTasks, m_size := newSize\<rparr>)
     }"

definition deallocate :: "int \<Rightarrow> 'f Async \<Rightarrow> 'f Async option" where
  "deallocate newSize a =
     do {
       newTasks \<leftarrow> copy_loop (tasks a) (new_array newSize) newSize 0;
       Some (a\<lparr>tasks := newTasks, m_size := newSize\<rparr>)
     }"

subsection \<open>\<^verbatim>\<open>add\<close>, \<^verbatim>\<open>remove\<close>, \<^verbatim>\<open>get\<close>, \<^verbatim>\<open>getAll\<close>\<close>

definition add :: "'f function_t \<Rightarrow> 'f Async \<Rightarrow> 'f Async option" where
  "add fw a =
     (if curr_size a \<ge> MAX_FUNCTIONARRAY_SIZE then Some a
      else do {
        a1 \<leftarrow> (if curr_size a \<ge> m_size a then allocate (m_size a * 2) a else Some a);
        old \<leftarrow> slot (tasks a1) (curr_size a1);
        ts \<leftarrow> put_slot (tasks a1) (curr_size a1) (assign old fw);
        Some (a1\<lparr>tasks := ts, curr_size := curr_size a1 + 1\<rparr>)
      })"

text \<open>
  \<^verbatim>\<open>remove\<close>: \<^verbatim>\<open>temp\<close> is a copy of the last live task; after \<^verbatim>\<open>temp.swap(tasks[index])\<close>
  the slot holds that copy and \<^verbatim>\<open>temp\<close>, the removed task, is dropped.
\<close>

definition remove :: "int \<Rightarrow> 'f Async \<Rightarrow> 'f Async option" where
  "remove index a =
     (if index \<ge> curr_size a then Some a
      else if index < 0 then Some a
      else do {
        last_task \<leftarrow> slot (tasks a) (curr_size a - 1);
        victim \<leftarrow> slot (tasks a) index;
        ts \<leftarrow> put_slot (tasks a) index (snd (swap (function_copy last_task) victim));
        a2 \<leftarrow> sort_A (a\<lparr>tasks := ts, curr_size := curr_size a - 1\<rparr>);
        (if curr_size a2 < c_div (m_size a2) 2 then deallocate (c_div (m_size a2) 2) a2
         else Some a2)
      })"

text \<open>
  \<^verbatim>\<open>get\<close> compares \<^verbatim>\<open>index >= size\<close>, read as the value of \<^verbatim>\<open>size()\<close>. It has no test
  for a negative index: \<^verbatim>\<open>tasks[index]\<close> is then a read before the array, a fault.
\<close>

definition get :: "int \<Rightarrow> 'f Async \<Rightarrow> 'f function_t option" where
  "get index a =
     (if index \<ge> size_A a then map_option function_copy (slot (tasks a) (curr_size a - 1))
      else map_option function_copy (slot (tasks a) index))"

definition getAll :: "'f Async \<Rightarrow> 'f function_t list" where
  "getAll a = tasks a"

section \<open>The run loop\<close>

text \<open>
  The Arduino runtime (\<^verbatim>\<open>micros\<close>, \<^verbatim>\<open>delay\<close>, \<^verbatim>\<open>delayMicroseconds\<close>) is not part of
  \<^verbatim>\<open>async.h\<close>: it is a parameter, acting on a state \<open>'w\<close> of the world outside the
  registry (the clock, the pins, the globals of the sketch). A callback is a function of
  its two arguments and of that world; it returns its result and the world it leaves.
  Callbacks that reach the registry itself are outside this model.
\<close>

record 'w arduino =
  micros :: "'w \<Rightarrow> ulong \<times> 'w"
  delay :: "ulong \<Rightarrow> 'w \<Rightarrow> 'w"
  delayMicroseconds :: "ulong \<Rightarrow> 'w \<Rightarrow> 'w"

type_synonym 'w callback = "ulong \<Rightarrow> ulong \<Rightarrow> 'w \<Rightarrow> ulong \<times> 'w"

definition wait :: "'w arduino \<Rightarrow> ulong \<Rightarrow> bool \<Rightarrow> 'w \<Rightarrow> 'w" where
  "wait hw time microseconds w =
     (if microseconds \<and> time > 16383 then delay hw (time div 1000) w
      else if microseconds then delayMicroseconds hw time w
      else if \<not> microseconds then delay hw time w
      else w)"

text \<open>\<^verbatim>\<open>function::run\<close>: calling through \<^verbatim>\<open>nullptr\<close> is a fault.\<close>

definition run :: "'w callback function_t \<Rightarrow> ulong \<Rightarrow> ulong \<Rightarrow> 'w \<Rightarrow> (ulong \<times> 'w) option" where
  "run f a b w = (case m_func f of None \<Rightarrow> None | Some g \<Rightarrow> Some (g a b w))"

text \<open>
  The state of \<^verbatim>\<open>run_until_complete\<close>: the registry, the world, and a record of the
  arguments \<open>(step, id)\<close> of every callback invocation so far, in order.
\<close>

record 'w run_state =
  reg :: "'w callback Async"
  world :: 'w
  calls :: "(ulong \<times> ulong) list"

datatype 's flow = Break 's | Continue 's

text \<open>The branch \<^verbatim>\<open>returnValue > 0\<close>: \<^verbatim>\<open>tasks[0].set_delay(returnValue)\<close>, then
  \<^verbatim>\<open>tasks[0].setStep(tasks[0].getStep() + 1)\<close>. \<open>run_head\<close> is the first half of the
  loop body: read the clock, run the head task, reschedule or remove it, sort. It
  returns \<^verbatim>\<open>begin\<close> with the state.\<close>

definition reschedule :: "ulong \<Rightarrow> 'f Async \<Rightarrow> 'f Async option" where
  "reschedule returnValue a =
     do {
       t0 \<leftarrow> slot (tasks a) 0;
       ts1 \<leftarrow> put_slot (tasks a) 0 (set_delay t0 returnValue True);
       t1 \<leftarrow> slot ts1 0;
       ts2 \<leftarrow> put_slot ts1 0 (setStep t1 (getStep t1 + 1));
       Some (a\<lparr>tasks := ts2\<rparr>)
     }"

definition run_head :: "'w arduino \<Rightarrow> 'w run_state \<Rightarrow> (ulong \<times> 'w run_state) option" where
  "run_head hw s =
     do {
       let begin = fst (micros hw (world s));
       let w1 = snd (micros hw (world s));
       t0 \<leftarrow> slot (tasks (reg s)) 0;
       res \<leftarrow> run t0 (getStep t0) (getId t0) w1;
       let returnValue = fst res;
       a1 \<leftarrow> (if returnValue > 0 then reschedule returnValue (reg s)
              else remove 0 (reg s));
       a2 \<leftarrow> sort_A a1;
       Some (begin, \<lparr>reg = a2, world = snd res, calls = calls s @ [(getStep t0, getId t0)]\<rparr>)
     }"

text \<open>The second half: leave when the registry is empty, else measure the time spent,
  and either advance all delays by it or wait and advance by the time waited.\<close>

definition pace :: "'w arduino \<Rightarrow> ulong \<Rightarrow> 'w run_state \<Rightarrow> 'w run_state flow option" where
  "pace hw begin s =
     (if curr_size (reg s) = 0 then Some (Break s)
      else do {
        let time_spent = fst (micros hw (world s)) - begin;
        let w3 = snd (micros hw (world s));
        h \<leftarrow> slot (tasks (reg s)) 0;
        (if time_spent \<ge> get_delay h True then
           do {
             a \<leftarrow> offsetDelayBy time_spent (reg s);
             Some (Continue (s\<lparr>reg := a, world := w3\<rparr>))
           }
         else
           do {
             let w4 = wait hw (get_delay h True - time_spent) True w3;
             a \<leftarrow> offsetDelayBy (get_delay h True - time_spent) (reg s);
             Some (Continue (s\<lparr>reg := a, world := w4\<rparr>))
           })
      })"

definition loop_body :: "'w arduino \<Rightarrow> 'w run_state \<Rightarrow> 'w run_state flow option" where
  "loop_body hw s =
     do {
       r \<leftarrow> run_head hw s;
       pace hw (fst r) (snd r)
     }"

text \<open>
  The loop may run forever (a callback that never returns 0): \<open>None\<close> is a run that
  does not return, \<open>Some Faulted\<close> one that hits undefined behaviour, \<open>Some (Returned s)\<close>
  one that returns in state \<open>s\<close>.
\<close>

datatype 's outcome = Returned 's | Faulted

partial_function (option) run_until_complete ::
  "'w arduino \<Rightarrow> 'w run_state \<Rightarrow> 'w run_state outcome option" where
  "run_until_complete hw s =
     (if curr_size (reg s) > 0 then
        (case loop_body hw s of
           None \<Rightarrow> Some Faulted
         | Some (Break s') \<Rightarrow> Some (Returned s')
         | Some (Continue s') \<Rightarrow> run_until_complete hw s')
      else Some (Returned s))"

section \<open>The registry invariant\<close>

text \<open>A power of two, decidably: \<open>2 ^ k = m\<close> forces \<open>k < m\<close>.\<close>

definition is_pow2 :: "int \<Rightarrow> bool" where
  "is_pow2 m = (\<exists>k \<in> set [0..<nat m]. m = 2 ^ k)"

definition size_inv :: "'f Async \<Rightarrow> bool" where
  "size_inv a =
     (0 \<le> curr_size a \<and> curr_size a \<le> m_size a \<and> m_size a \<le> MAX_FUNCTIONARRAY_SIZE \<and>
      is_pow2 (m_size a))"

text \<open>The array \<^verbatim>\<open>tasks\<close> points to has \<^verbatim>\<open>m_size\<close> slots.\<close>

definition Async_inv :: "'f Async \<Rightarrow> bool" where
  "Async_inv a = (size_inv a \<and> int (length (tasks a)) = m_size a)"

text \<open>Saturating subtraction, the \<open>max(0, d - x)\<close> of the specification.\<close>

definition sat_sub :: "ulong \<Rightarrow> ulong \<Rightarrow> ulong" where
  "sat_sub d x = (if x \<le> d then d - x else 0)"

text \<open>A sequence of calls to \<^verbatim>\<open>add\<close>, one per task of the list.\<close>

fun adds :: "'f function_t list \<Rightarrow> 'f Async \<Rightarrow> 'f Async option" where
  "adds [] a = Some a"
| "adds (fw # fws) a = add fw a \<bind> adds fws"

section \<open>Example inputs\<close>

text \<open>
  A world that is only a microsecond clock: reading it is free, sleeping advances it.
  \<open>cb_after r cost\<close> is a callback that runs for \<open>cost\<close> microseconds and asks to be
  run again after \<open>r\<close>; \<open>cb_steps\<close> asks for 500 until its fourth step.
\<close>

definition hw_clock :: "ulong arduino" where
  "hw_clock =
     \<lparr>micros = (\<lambda>w. (w, w)), delay = (\<lambda>ms w. w + ms * 1000),
      delayMicroseconds = (\<lambda>us w. w + us)\<rparr>"

definition cb_after :: "ulong \<Rightarrow> ulong \<Rightarrow> ulong callback" where
  "cb_after r cost = (\<lambda>st i w. (r, w + cost))"

definition cb_steps :: "ulong callback" where
  "cb_steps = (\<lambda>st i w. (if st < 4 then 500 else 0, w + 10))"

text \<open>A task as a sketch builds it: wrap the callback, then set the delay.\<close>

definition task_of :: "'f \<Rightarrow> ulong \<Rightarrow> 'f function_t" where
  "task_of f d = set_delay (function_ctor (Some f)) d True"

definition delays :: "'f Async \<Rightarrow> ulong list" where
  "delays a = map (\<lambda>t. get_delay t True) (live a)"

text \<open>A registry of three tasks, as three calls of \<^verbatim>\<open>add\<close> on a new registry leave it.\<close>

definition three_tasks :: "ulong callback Async" where
  "three_tasks =
     \<lparr>m_size = 4, m_permsize = 1, curr_size = 3,
      tasks = [task_of (cb_after 0 0) 30, task_of (cb_after 0 0) 10,
               task_of (cb_after 0 0) 20, function_default]\<rparr>"

text \<open>Two tasks: the head is due now, runs for 10 microseconds and asks for 100 more;
  the other is due in 1000 microseconds.\<close>

definition two_tasks_state :: "ulong run_state" where
  "two_tasks_state =
     \<lparr>reg = \<lparr>m_size = 2, m_permsize = 1, curr_size = 2,
             tasks = [task_of (cb_after 100 10) 0, task_of (cb_after 0 0) 1000]\<rparr>,
      world = 0, calls = []\<rparr>"

text \<open>The state \<open>two_tasks_state\<close> is in after the head task has run and been
  rescheduled: its delay is 100, its step 2, and the clock reads 10.\<close>

definition two_tasks_after_head :: "ulong run_state" where
  "two_tasks_after_head =
     \<lparr>reg = \<lparr>m_size = 2, m_permsize = 1, curr_size = 2,
             tasks = [setStep (task_of (cb_after 100 10) 100) 2, task_of (cb_after 0 0) 1000]\<rparr>,
      world = 10, calls = [(1, 0)]\<rparr>"

text \<open>One task that is due now and finishes at once, before and after its only run.\<close>

definition one_task_state :: "ulong run_state" where
  "one_task_state =
     \<lparr>reg = \<lparr>m_size = 1, m_permsize = 1, curr_size = 1, tasks = [task_of (cb_after 0 0) 0]\<rparr>,
      world = 0, calls = []\<rparr>"

definition one_task_done :: "ulong run_state" where
  "one_task_done =
     \<lparr>reg = \<lparr>m_size = 1, m_permsize = 1, curr_size = 0, tasks = [task_of (cb_after 0 0) 0]\<rparr>,
      world = 0, calls = [(1, 0)]\<rparr>"

text \<open>The state a loop iteration leaves, whichever way it leaves.\<close>

fun flow_state :: "'s flow \<Rightarrow> 's" where
  "flow_state (Break s) = s"
| "flow_state (Continue s) = s"

text \<open>A registry that holds exactly one task, with callback \<open>cb\<close>, step \<open>k\<close> and id \<open>i\<close>,
  in an array of one slot.\<close>

definition single :: "'f Async \<Rightarrow> 'f \<Rightarrow> ulong \<Rightarrow> ulong \<Rightarrow> bool" where
  "single a cb k i =
     (m_size a = 1 \<and> curr_size a = 1 \<and>
      (case tasks a of
         [t] \<Rightarrow> m_func t = Some cb \<and> step t = k \<and> id_tag t = i
       | _ \<Rightarrow> False))"

section \<open>Auxiliary facts\<close>

subsection \<open>Slots, swaps and copies\<close>


lemma slot_nat [simp]: "i < length xs \<Longrightarrow> slot xs (int i) = Some (xs ! i)"
  by (simp add: slot_def)

lemma slot_int: "0 \<le> i \<Longrightarrow> i < int (length xs) \<Longrightarrow> slot xs i = Some (xs ! nat i)"
  by (simp add: slot_def)

lemma put_slot_nat [simp]: "i < length xs \<Longrightarrow> put_slot xs (int i) v = Some (xs[i := v])"
  by (simp add: put_slot_def)

lemma put_slot_int: "0 \<le> i \<Longrightarrow> i < int (length xs) \<Longrightarrow> put_slot xs i v = Some (xs[nat i := v])"
  by (simp add: put_slot_def)

lemma swap_eq [simp]: "swap a b = (b, a)"
  by (cases a, cases b) (simp add: swap_def swap_vals_def)

lemma function_copy_id [simp]: "function_copy t = t"
  by (cases t) (simp add: function_copy_def)

lemma assign_eq [simp]: "assign old t = t"
  by (simp add: assign_def)

lemma c_div_2 [simp]: "0 \<le> a \<Longrightarrow> c_div a 2 = a div 2"
  by (cases "a = 0") (simp_all add: c_div_def)

lemma swap_slots_eq:
  "i < length ts \<Longrightarrow> j < length ts \<Longrightarrow> swap_slots ts i j = Some (ts[i := ts ! j, j := ts ! i])"
  by (simp add: swap_slots_def)

lemma copy_loop_spec:
  "nat n \<le> length src \<Longrightarrow> nat n \<le> length dst \<Longrightarrow>
   \<exists>r. copy_loop src dst n iii = Some r \<and> length r = length dst \<and>
       (\<forall>j < length dst. r ! j = (if iii \<le> j \<and> int j < n then src ! j else dst ! j))"
proof (induction src dst n iii rule: copy_loop.induct)
  case (1 src newTasks n iii)
  show ?case
  proof (cases "int iii < n")
    case False
    then have "\<And>j. iii \<le> j \<Longrightarrow> \<not> int j < n" by linarith
    with False show ?thesis by (subst copy_loop.simps) auto
  next
    case True
    with "1.prems" have lt: "iii < length src" "iii < length newTasks" by linarith+
    have len: "nat n \<le> length (newTasks[iii := src ! iii])" using "1.prems" by simp
    have "\<exists>r. copy_loop src (newTasks[iii := src ! iii]) n (iii + 1) = Some r \<and>
       length r = length (newTasks[iii := src ! iii]) \<and>
       (\<forall>j < length (newTasks[iii := src ! iii]).
          r ! j = (if iii + 1 \<le> j \<and> int j < n then src ! j else newTasks[iii := src ! iii] ! j))"
      by (rule "1.IH") (use True lt "1.prems" in simp_all)
    then obtain r where r: "copy_loop src (newTasks[iii := src ! iii]) n (iii + 1) = Some r"
      "length r = length newTasks"
      "\<forall>j < length newTasks. r ! j = (if iii + 1 \<le> j \<and> int j < n then src ! j else newTasks[iii := src ! iii] ! j)"
      by auto
    have "copy_loop src newTasks n iii = Some r"
      using True lt r(1) by (subst copy_loop.simps) simp
    moreover have "\<forall>j < length newTasks. r ! j = (if iii \<le> j \<and> int j < n then src ! j else newTasks ! j)"
      using r(3) True lt by (auto simp: nth_list_update)
    ultimately show ?thesis using r(2) by blast
  qed
qed

lemma offset_loop_spec:
  "nat n \<le> length ts \<Longrightarrow>
   \<exists>r. offset_loop ts n x iii = Some r \<and> length r = length ts \<and>
       (\<forall>j < length ts. r ! j = (if iii \<le> j \<and> int j < n
            then (ts ! j)\<lparr>delay_time_us := (if x \<le> delay_time_us (ts ! j) then delay_time_us (ts ! j) - x else 0)\<rparr>
            else ts ! j))"
proof (induction ts n x iii rule: offset_loop.induct)
  case (1 ts n x iii)
  show ?case
  proof (cases "int iii < n")
    case False
    then have "\<And>j. iii \<le> j \<Longrightarrow> \<not> int j < n" by linarith
    with False show ?thesis by (subst offset_loop.simps) auto
  next
    case True
    with "1.prems" have lt: "iii < length ts" by linarith
    define v where "v = (if get_delay (ts ! iii) True \<ge> x
                   then set_delay (ts ! iii) (get_delay (ts ! iii) True - x) True
                   else set_delay (ts ! iii) 0 True)"
    have v: "v = (ts ! iii)\<lparr>delay_time_us := (if x \<le> delay_time_us (ts ! iii) then delay_time_us (ts ! iii) - x else 0)\<rparr>"
      by (simp add: v_def get_delay_def set_delay_def)
    have len: "nat n \<le> length (ts[iii := v])" using "1.prems" by simp
    have "\<exists>r. offset_loop (ts[iii := v]) n x (iii + 1) = Some r \<and>
       length r = length (ts[iii := v]) \<and>
       (\<forall>j < length (ts[iii := v]). r ! j = (if iii + 1 \<le> j \<and> int j < n
            then (ts[iii := v] ! j)\<lparr>delay_time_us := (if x \<le> delay_time_us (ts[iii := v] ! j) then delay_time_us (ts[iii := v] ! j) - x else 0)\<rparr>
            else ts[iii := v] ! j))"
      by (rule "1.IH") (use True lt "1.prems" in \<open>simp_all add: v_def\<close>)
    then obtain r where r: "offset_loop (ts[iii := v]) n x (iii + 1) = Some r"
      "length r = length ts"
      "\<forall>j < length ts. r ! j = (if iii + 1 \<le> j \<and> int j < n
            then (ts[iii := v] ! j)\<lparr>delay_time_us := (if x \<le> delay_time_us (ts[iii := v] ! j) then delay_time_us (ts[iii := v] ! j) - x else 0)\<rparr>
            else ts[iii := v] ! j)"
      by auto
    have "offset_loop ts n x iii = Some r"
      using True lt r(1) by (subst offset_loop.simps) (simp add: v_def)
    moreover have "\<forall>j < length ts. r ! j = (if iii \<le> j \<and> int j < n
            then (ts ! j)\<lparr>delay_time_us := (if x \<le> delay_time_us (ts ! j) then delay_time_us (ts ! j) - x else 0)\<rparr>
            else ts ! j)"
      using r(3) True lt v by (auto simp: nth_list_update)
    ultimately show ?thesis using r(2) by blast
  qed
qed


lemma mset_take_swap:
  "i < k \<Longrightarrow> j < k \<Longrightarrow> k \<le> length ts \<Longrightarrow>
   mset (take k (ts[i := ts ! j, j := ts ! i])) = mset (take k ts)"
proof -
  assume a: "i < k" "j < k" "k \<le> length ts"
  have "take k (ts[i := ts ! j, j := ts ! i]) = (take k ts)[i := take k ts ! j, j := take k ts ! i]"
    using a by (simp add: take_update_swap)
  also have "mset \<dots> = mset (take k ts)"
    using a by (intro mset_swap) simp_all
  finally show ?thesis .
qed

lemma sort_scan_spec:
  "nat n \<le> length ts \<Longrightarrow> int sm < n \<Longrightarrow>
   \<exists>sm' ex. sort_scan ts n iii sm acc = Some (sm', acc @ ex) \<and> int sm' < n \<and>
     (\<forall>i \<in> set ex. int i < n)"
proof (induction ts n iii sm acc rule: sort_scan.induct)
  case (1 ts n iii sm acc)
  show ?case
  proof (cases "int iii < n")
    case False
    then show ?thesis using "1.prems" by (subst sort_scan.simps) simp
  next
    case True
    with "1.prems" have lt: "iii < length ts" "sm < length ts" by linarith+
    define sm1 where "sm1 = (if get_delay (ts ! iii) True < get_delay (ts ! sm) True then iii else sm)"
    have sm1: "int sm1 < n" using True "1.prems" by (simp add: sm1_def)
    have "\<exists>sm' ex. sort_scan ts n (iii + 1) sm1 (acc @ [iii, sm]) = Some (sm', (acc @ [iii, sm]) @ ex) \<and>
             int sm' < n \<and> (\<forall>i \<in> set ex. int i < n)"
      unfolding sm1_def by (rule "1.IH") (use True lt "1.prems" in \<open>simp_all\<close>)
    then obtain sm' ex where r: "sort_scan ts n (iii + 1) sm1 (acc @ [iii, sm]) = Some (sm', acc @ [iii, sm] @ ex)"
      "int sm' < n" "\<forall>i \<in> set ex. int i < n"
      by auto
    have "sort_scan ts n iii sm acc = Some (sm', acc @ ([iii, sm] @ ex))"
      using True lt r(1) by (subst sort_scan.simps) (simp add: sm1_def)
    moreover have "\<forall>i \<in> set ([iii, sm] @ ex). int i < n"
      using r(3) True "1.prems" by simp
    ultimately show ?thesis using r(2) by blast
  qed
qed

lemma sort_pass_spec:
  "nat n \<le> length ts \<Longrightarrow> int sm < n \<Longrightarrow>
   \<exists>ts' ex. sort_pass ts n cur sm acc = Some (ts', acc @ ex) \<and> length ts' = length ts \<and>
     mset (take (nat n) ts') = mset (take (nat n) ts) \<and>
     drop (nat n) ts' = drop (nat n) ts \<and> (\<forall>i \<in> set ex. int i < n)"
proof (induction ts n cur sm acc rule: sort_pass.induct)
  case (1 ts n cur sm acc)
  show ?case
  proof (cases "int cur < n - 1")
    case False
    then show ?thesis by (subst sort_pass.simps) simp
  next
    case True
    from sort_scan_spec[OF "1.prems", of cur acc]
    obtain sm' ex1 where sc: "sort_scan ts n cur sm acc = Some (sm', acc @ ex1)"
      "int sm' < n" "\<forall>i \<in> set ex1. int i < n"
      by blast
    have lt: "cur < nat n" "sm' < nat n" using True sc(2) by linarith+
    define ts1 where "ts1 = (if cur \<noteq> sm' then ts[cur := ts ! sm', sm' := ts ! cur] else ts)"
    define acc1 where "acc1 = (if cur \<noteq> sm' then (acc @ ex1) @ [cur, sm'] else acc @ ex1)"
    have sw: "(if cur \<noteq> sm' then swap_slots ts cur sm' else Some ts) = Some ts1"
      using lt "1.prems" by (simp add: ts1_def swap_slots_eq)
    have len1: "length ts1 = length ts" by (simp add: ts1_def)
    have ms1: "mset (take (nat n) ts1) = mset (take (nat n) ts)"
      using lt "1.prems" by (simp add: ts1_def mset_take_swap)
    have dr1: "drop (nat n) ts1 = drop (nat n) ts"
      using lt by (simp add: ts1_def)
    have "\<exists>ts' ex. sort_pass ts1 n (cur + 1) sm' acc1 = Some (ts', acc1 @ ex) \<and>
        length ts' = length ts1 \<and> mset (take (nat n) ts') = mset (take (nat n) ts1) \<and>
        drop (nat n) ts' = drop (nat n) ts1 \<and> (\<forall>i \<in> set ex. int i < n)"
    proof -
      have sw': "(if cur \<noteq> fst (sm', acc @ ex1) then swap_slots ts cur (fst (sm', acc @ ex1))
                 else Some ts) = Some ts1"
        unfolding fst_conv by (rule sw)
      have "nat n \<le> length ts1" "int (fst (sm', acc @ ex1)) < n"
        using len1 "1.prems" sc(2) by simp_all
      from "1.IH"[OF True sc(1) sw' this] show ?thesis
        by (cases "cur = sm'") (simp_all add: acc1_def)
    qed
    then obtain ts' ex2 where r: "sort_pass ts1 n (cur + 1) sm' acc1 = Some (ts', acc1 @ ex2)"
      "length ts' = length ts1" "mset (take (nat n) ts') = mset (take (nat n) ts1)"
      "drop (nat n) ts' = drop (nat n) ts1" "\<forall>i \<in> set ex2. int i < n"
      by blast
    define ex where "ex = (if cur \<noteq> sm' then ex1 @ [cur, sm'] @ ex2 else ex1 @ ex2)"
    have e: "acc1 @ ex2 = acc @ ex" by (simp add: acc1_def ex_def)
    have "sort_pass ts n cur sm acc = Some (ts', acc @ ex)"
      using True sc(1) sw r(1) e
      by (subst sort_pass.simps) (cases "cur = sm'"; simp add: acc1_def)
    moreover have "\<forall>i \<in> set ex. int i < n"
      using sc(3) r(5) lt by (auto simp: ex_def)
    ultimately show ?thesis using r(2,3,4) len1 ms1 dr1 by auto
  qed
qed

subsection \<open>Powers of two, sorting, offsets\<close>


lemma is_pow2_iff: "is_pow2 m \<longleftrightarrow> (\<exists>k::nat. m = 2 ^ k)"
proof
  assume "is_pow2 m" then show "\<exists>k::nat. m = 2 ^ k" by (auto simp: is_pow2_def)
next
  assume "\<exists>k::nat. m = 2 ^ k"
  then obtain k :: nat where k: "m = 2 ^ k" by blast
  have "k < 2 ^ k" by (rule less_exp)
  then have "k < nat m" by (simp add: k nat_power_eq)
  then show "is_pow2 m" using k by (auto simp: is_pow2_def)
qed

lemma is_pow2_double: "is_pow2 m \<Longrightarrow> is_pow2 (m * 2)"
proof -
  assume "is_pow2 m"
  then obtain k :: nat where "m = 2 ^ k" by (auto simp: is_pow2_iff)
  then have "m * 2 = 2 ^ (Suc k)" by simp
  then show ?thesis unfolding is_pow2_iff by blast
qed

lemma is_pow2_half: "is_pow2 m \<Longrightarrow> 2 \<le> m \<Longrightarrow> is_pow2 (m div 2)"
proof -
  assume a: "is_pow2 m" "2 \<le> m"
  then obtain k :: nat where k: "m = 2 ^ k" by (auto simp: is_pow2_iff)
  with a(2) have "k \<noteq> 0" by (cases k) auto
  then obtain k' where "k = Suc k'" by (cases k) auto
  then have "m div 2 = 2 ^ k'" using k by simp
  then show ?thesis unfolding is_pow2_iff by blast
qed

lemma is_pow2_pos: "is_pow2 m \<Longrightarrow> 1 \<le> m"
  by (auto simp: is_pow2_iff)

lemma is_pow2_double_le: "is_pow2 m \<Longrightarrow> m < 32 \<Longrightarrow> m * 2 \<le> 32"
proof -
  assume a: "is_pow2 m" "m < 32"
  then obtain k :: nat where k: "m = 2 ^ k" by (auto simp: is_pow2_iff)
  have "k < 5"
  proof (rule ccontr)
    assume "\<not> k < 5"
    then have "(2::int) ^ 5 \<le> 2 ^ k" by (intro power_increasing) simp_all
    with a(2) k show False by simp
  qed
  then have "(2::int) ^ Suc k \<le> 2 ^ 5" by (intro power_increasing) simp_all
  then show ?thesis using k by simp
qed

lemma sort_traced_spec:
  assumes "0 \<le> curr_size a" "nat (curr_size a) \<le> length (tasks a)"
  shows "\<exists>ts' lg. sort_traced a = Some (a\<lparr>tasks := ts'\<rparr>, lg) \<and> length ts' = length (tasks a) \<and>
     mset (take (nat (curr_size a)) ts') = mset (take (nat (curr_size a)) (tasks a)) \<and>
     drop (nat (curr_size a)) ts' = drop (nat (curr_size a)) (tasks a) \<and>
     (\<forall>i \<in> set lg. int i < curr_size a)"
proof (cases "curr_size a = 0")
  case True
  have "a = a\<lparr>tasks := tasks a\<rparr>" by simp
  then have "sort_traced a = Some (a\<lparr>tasks := tasks a\<rparr>, [])"
    using True by (simp add: sort_traced_def)
  then show ?thesis by fastforce
next
  case False
  with assms have pos: "int 0 < curr_size a" by simp
  from sort_pass_spec[OF assms(2) pos, of 0 "[]"]
  obtain ts' ex where r: "sort_pass (tasks a) (curr_size a) 0 0 [] = Some (ts', ex)"
    "length ts' = length (tasks a)"
    "mset (take (nat (curr_size a)) ts') = mset (take (nat (curr_size a)) (tasks a))"
    "drop (nat (curr_size a)) ts' = drop (nat (curr_size a)) (tasks a)"
    "\<forall>i \<in> set ex. int i < curr_size a"
    by auto
  have "sort_traced a = Some (a\<lparr>tasks := ts'\<rparr>, ex)"
    using False r(1) by (simp add: sort_traced_def)
  then show ?thesis using r by blast
qed

lemma sort_A_spec:
  assumes "0 \<le> curr_size a" "nat (curr_size a) \<le> length (tasks a)"
  shows "\<exists>a'. sort_A a = Some a' \<and> m_size a' = m_size a \<and> curr_size a' = curr_size a \<and>
     m_permsize a' = m_permsize a \<and> length (tasks a') = length (tasks a) \<and>
     mset (live a') = mset (live a) \<and>
     drop (nat (curr_size a)) (tasks a') = drop (nat (curr_size a)) (tasks a)"
proof -
  from sort_traced_spec[OF assms] obtain ts' lg where
    r: "sort_traced a = Some (a\<lparr>tasks := ts'\<rparr>, lg)" "length ts' = length (tasks a)"
     "mset (take (nat (curr_size a)) ts') = mset (take (nat (curr_size a)) (tasks a))"
     "drop (nat (curr_size a)) ts' = drop (nat (curr_size a)) (tasks a)"
    by blast
  have "sort_A a = Some (a\<lparr>tasks := ts'\<rparr>)" by (simp add: sort_A_def r(1))
  then show ?thesis using r(2,3,4) by (simp add: live_def)
qed

lemma offsetDelayBy_spec:
  assumes "nat (curr_size a) \<le> length (tasks a)"
  shows "\<exists>a'. offsetDelayBy x a = Some a' \<and> m_size a' = m_size a \<and> curr_size a' = curr_size a \<and>
     m_permsize a' = m_permsize a \<and> length (tasks a') = length (tasks a) \<and>
     live a' = map (\<lambda>t. t\<lparr>delay_time_us := sat_sub (delay_time_us t) x\<rparr>) (live a) \<and>
     drop (nat (curr_size a)) (tasks a') = drop (nat (curr_size a)) (tasks a)"
proof -
  from offset_loop_spec[OF assms, of x 0] obtain r where
    r: "offset_loop (tasks a) (curr_size a) x 0 = Some r" "length r = length (tasks a)"
       "\<forall>j < length (tasks a). r ! j = (if int j < curr_size a
            then (tasks a ! j)\<lparr>delay_time_us := sat_sub (delay_time_us (tasks a ! j)) x\<rparr>
            else tasks a ! j)"
    by (auto simp: sat_sub_def)
  have 1: "offsetDelayBy x a = Some (a\<lparr>tasks := r\<rparr>)" by (simp add: offsetDelayBy_def r(1))
  have 2: "take (nat (curr_size a)) r =
        map (\<lambda>t. t\<lparr>delay_time_us := sat_sub (delay_time_us t) x\<rparr>) (take (nat (curr_size a)) (tasks a))"
    using r(2,3) assms by (intro nth_equalityI) auto
  have 3: "drop (nat (curr_size a)) r = drop (nat (curr_size a)) (tasks a)"
    using r(2,3) assms by (intro nth_equalityI) auto
  show ?thesis using 1 2 3 r(2) by (simp add: live_def)
qed

subsection \<open>Growing and shrinking\<close>


lemma allocate_spec:
  assumes "m_size a < newSize" "0 \<le> curr_size a" "nat (curr_size a) \<le> length (tasks a)"
    "curr_size a \<le> newSize"
  shows "\<exists>a'. allocate newSize a = Some a' \<and> m_size a' = newSize \<and> curr_size a' = curr_size a \<and>
     m_permsize a' = m_permsize a \<and> int (length (tasks a')) = newSize \<and> live a' = live a"
proof -
  have len: "nat (curr_size a) \<le> length (new_array newSize :: 'a function_t list)"
    using assms by (simp add: new_array_def)
  from copy_loop_spec[OF assms(3) len, of 0] obtain r where
    r: "copy_loop (tasks a) (new_array newSize) (curr_size a) 0 = Some r"
       "length r = nat newSize"
       "\<forall>j < nat newSize. r ! j = (if int j < curr_size a then tasks a ! j else new_array newSize ! j)"
    by (auto simp: new_array_def)
  have 1: "allocate newSize a = Some (a\<lparr>tasks := r, m_size := newSize\<rparr>)"
    using assms(1) r(1) by (simp add: allocate_def)
  have 2: "take (nat (curr_size a)) r = take (nat (curr_size a)) (tasks a)"
    using r(2,3) assms by (intro nth_equalityI) auto
  show ?thesis using 1 2 r(2) assms by (simp add: live_def)
qed

lemma deallocate_spec:
  assumes "0 \<le> newSize" "nat newSize \<le> length (tasks a)" "curr_size a \<le> newSize"
  shows "\<exists>a'. deallocate newSize a = Some a' \<and> m_size a' = newSize \<and> curr_size a' = curr_size a \<and>
     m_permsize a' = m_permsize a \<and> int (length (tasks a')) = newSize \<and> live a' = live a"
proof -
  have len: "nat newSize \<le> length (new_array newSize :: 'a function_t list)"
    by (simp add: new_array_def)
  from copy_loop_spec[OF assms(2) len, of 0] obtain r where
    r: "copy_loop (tasks a) (new_array newSize) newSize 0 = Some r"
       "length r = nat newSize"
       "\<forall>j < nat newSize. r ! j = (if int j < newSize then tasks a ! j else new_array newSize ! j)"
    by (auto simp: new_array_def)
  have 1: "deallocate newSize a = Some (a\<lparr>tasks := r, m_size := newSize\<rparr>)"
    using r(1) by (simp add: deallocate_def)
  have 2: "take (nat (curr_size a)) r = take (nat (curr_size a)) (tasks a)"
    using r(2,3) assms by (intro nth_equalityI) auto
  show ?thesis using 1 2 r(2) assms by (simp add: live_def)
qed

lemma add_full: "curr_size a \<ge> MAX_FUNCTIONARRAY_SIZE \<Longrightarrow> add fw a = Some a"
  by (simp add: add_def)

lemma add_spec:
  assumes "Async_inv a" "curr_size a < MAX_FUNCTIONARRAY_SIZE"
  shows "\<exists>a'. add fw a = Some a' \<and> Async_inv a' \<and> curr_size a' = curr_size a + 1 \<and>
     m_size a' = (if curr_size a \<ge> m_size a then m_size a * 2 else m_size a) \<and>
     live a' = live a @ [fw]"
proof -
  from assms have inv: "0 \<le> curr_size a" "curr_size a \<le> m_size a" "m_size a \<le> 32"
    "is_pow2 (m_size a)" "int (length (tasks a)) = m_size a" "curr_size a < 32"
    by (simp_all add: Async_inv_def size_inv_def MAX_FUNCTIONARRAY_SIZE_def)
  define nm where "nm = (if curr_size a \<ge> m_size a then m_size a * 2 else m_size a)"
  have pos: "1 \<le> m_size a" using inv(4) by (rule is_pow2_pos)
  have "\<exists>a1. (if curr_size a \<ge> m_size a then allocate (m_size a * 2) a else Some a) = Some a1 \<and>
     m_size a1 = nm \<and> curr_size a1 = curr_size a \<and> int (length (tasks a1)) = nm \<and> live a1 = live a"
  proof (cases "curr_size a \<ge> m_size a")
    case True
    have "\<exists>a'. allocate (m_size a * 2) a = Some a' \<and> m_size a' = m_size a * 2 \<and> curr_size a' = curr_size a \<and>
     m_permsize a' = m_permsize a \<and> int (length (tasks a')) = m_size a * 2 \<and> live a' = live a"
      by (rule allocate_spec) (use inv pos in simp_all)
    then show ?thesis using True by (auto simp: nm_def)
  next
    case False
    then show ?thesis using inv by (simp add: nm_def)
  qed
  then obtain a1 where a1: "(if curr_size a \<ge> m_size a then allocate (m_size a * 2) a else Some a) = Some a1"
    "m_size a1 = nm" "curr_size a1 = curr_size a" "int (length (tasks a1)) = nm" "live a1 = live a"
    by blast
  have lt: "curr_size a < nm" using inv pos by (simp add: nm_def)
  have nm32: "nm \<le> 32" "is_pow2 nm"
    using inv is_pow2_double_le[of "m_size a"] is_pow2_double[of "m_size a"]
    by (auto simp: nm_def)
  define a' where "a' = a1\<lparr>tasks := (tasks a1)[nat (curr_size a) := fw], curr_size := curr_size a + 1\<rparr>"
  have "add fw a = Some a'"
    using inv(6) a1 lt inv(1)
    by (simp add: add_def MAX_FUNCTIONARRAY_SIZE_def slot_int put_slot_int a'_def)
  moreover have "Async_inv a'"
    using a1 lt nm32 inv(1)
    by (simp add: a'_def Async_inv_def size_inv_def MAX_FUNCTIONARRAY_SIZE_def)
  moreover have "live a' = live a @ [fw]"
  proof -
    have l: "nat (curr_size a) < length (tasks a1)" using a1(4) lt inv(1) by linarith
    have "live a' = take (Suc (nat (curr_size a))) ((tasks a1)[nat (curr_size a) := fw])"
      using inv(1) by (simp add: live_def a'_def nat_add_distrib)
    also have "\<dots> = take (nat (curr_size a)) (tasks a1) @ [fw]"
      using l by (simp add: take_Suc_conv_app_nth)
    also have "\<dots> = live a @ [fw]" using a1(3,5) by (simp add: live_def)
    finally show ?thesis .
  qed
  ultimately show ?thesis using a1(2) by (simp add: a'_def nm_def)
qed

lemma mset_take_remove:
  assumes "i < n" "n \<le> length ts"
  shows "mset (take (n - 1) (ts[i := ts ! (n - 1)])) = mset (take n ts) - {#ts ! i#}"
proof -
  obtain m where n: "n = Suc m" using assms(1) by (cases n) auto
  have tk: "take n ts = take m ts @ [ts ! m]"
    using assms(2) n by (simp add: take_Suc_conv_app_nth)
  show ?thesis
  proof (cases "i = m")
    case True
    then show ?thesis using n tk by simp
  next
    case False
    with assms n have im: "i < m" "m < length ts" by simp_all
    have "take m (ts[i := ts ! m]) = (take m ts)[i := ts ! m]"
      by (simp add: take_update_swap)
    then have "mset (take m (ts[i := ts ! m])) = add_mset (ts ! m) (mset (take m ts) - {#ts ! i#})"
      using im by (simp add: mset_update)
    moreover have "ts ! i \<in># mset (take m ts)"
      using im by (metis in_set_conv_nth length_take min.absorb2 nth_take less_imp_le_nat set_mset_mset)
    ultimately show ?thesis using n tk by simp
  qed
qed

lemma remove_outside: "index \<ge> curr_size a \<or> index < 0 \<Longrightarrow> remove index a = Some a"
  by (auto simp: remove_def)

lemma remove_spec:
  assumes "Async_inv a" "0 \<le> index" "index < curr_size a"
  shows "\<exists>a'. remove index a = Some a' \<and> Async_inv a' \<and> curr_size a' = curr_size a - 1 \<and>
     m_size a' = (if curr_size a - 1 < m_size a div 2 then m_size a div 2 else m_size a) \<and>
     mset (live a') = mset (live a) - {#tasks a ! nat index#}"
proof -
  from assms have inv: "0 \<le> curr_size a" "curr_size a \<le> m_size a" "m_size a \<le> 32"
    "is_pow2 (m_size a)" "int (length (tasks a)) = m_size a"
    by (simp_all add: Async_inv_def size_inv_def MAX_FUNCTIONARRAY_SIZE_def)
  define n where "n = nat (curr_size a)"
  define i where "i = nat index"
  have ni: "i < n" "n \<le> length (tasks a)" "curr_size a = int n" "index = int i"
    using assms(2,3) inv by (simp_all add: n_def i_def)
  define a1 where "a1 = a\<lparr>tasks := (tasks a)[i := tasks a ! (n - 1)], curr_size := curr_size a - 1\<rparr>"
  have a1: "0 \<le> curr_size a1" "nat (curr_size a1) \<le> length (tasks a1)"
    using ni by (simp_all add: a1_def)
  from sort_A_spec[OF a1] obtain a2 where
    a2: "sort_A a1 = Some a2" "m_size a2 = m_size a1" "curr_size a2 = curr_size a1"
    "length (tasks a2) = length (tasks a1)" "mset (live a2) = mset (live a1)"
    by blast
  have live1: "mset (live a1) = mset (live a) - {#tasks a ! i#}"
  proof -
    have "nat (curr_size a1) = n - 1" using ni by (simp add: a1_def)
    then show ?thesis using mset_take_remove[OF ni(1,2)] ni by (simp add: live_def a1_def)
  qed
  have m2: "m_size a2 = m_size a" "curr_size a2 = curr_size a - 1" "int (length (tasks a2)) = m_size a"
    using a2 inv by (simp_all add: a1_def)
  have mpos: "0 \<le> m_size a" using inv by simp
  have "\<exists>a'. (if curr_size a2 < c_div (m_size a2) 2 then deallocate (c_div (m_size a2) 2) a2 else Some a2) = Some a' \<and>
     Async_inv a' \<and> curr_size a' = curr_size a - 1 \<and>
     m_size a' = (if curr_size a - 1 < m_size a div 2 then m_size a div 2 else m_size a) \<and>
     live a' = live a2"
  proof (cases "curr_size a2 < m_size a2 div 2")
    case True
    have "\<exists>a'. deallocate (m_size a div 2) a2 = Some a' \<and> m_size a' = m_size a div 2 \<and> curr_size a' = curr_size a2 \<and>
     m_permsize a' = m_permsize a2 \<and> int (length (tasks a')) = m_size a div 2 \<and> live a' = live a2"
      by (rule deallocate_spec) (use True m2 mpos ni in simp_all)
    then obtain a' where a': "deallocate (m_size a div 2) a2 = Some a'" "m_size a' = m_size a div 2"
      "curr_size a' = curr_size a2" "int (length (tasks a')) = m_size a div 2" "live a' = live a2"
      by blast
    have two: "2 \<le> m_size a" using True m2 ni by simp
    have "Async_inv a'"
      using a' m2 True ni inv is_pow2_half[OF inv(4) two]
      by (simp add: Async_inv_def size_inv_def MAX_FUNCTIONARRAY_SIZE_def)
    then show ?thesis using True a' m2 mpos by simp
  next
    case False
    have "Async_inv a2"
      using False m2 inv ni by (simp add: Async_inv_def size_inv_def MAX_FUNCTIONARRAY_SIZE_def)
    then show ?thesis using False m2 mpos by simp
  qed
  then obtain a' where a': "(if curr_size a2 < c_div (m_size a2) 2 then deallocate (c_div (m_size a2) 2) a2 else Some a2) = Some a'"
    "Async_inv a'" "curr_size a' = curr_size a - 1"
    "m_size a' = (if curr_size a - 1 < m_size a div 2 then m_size a div 2 else m_size a)"
    "live a' = live a2"
    by blast
  have "nat (int n - 1) = n - 1" by simp
  then have sl: "slot (tasks a) (int n - 1) = Some (tasks a ! (n - 1))"
    using ni(1,2) by (simp add: slot_def)
  have "remove index a = Some a'"
    using ni a2(1) a'(1) sl by (simp add: remove_def a1_def)
  then show ?thesis using a' a2(5) live1 ni by simp
qed

subsection \<open>Invariant bounds, repeated adds, reads\<close>

lemma live_length: "0 \<le> curr_size a \<Longrightarrow> nat (curr_size a) \<le> length (tasks a) \<Longrightarrow> length (live a) = nat (curr_size a)"
  by (simp add: live_def)

lemma Async_inv_bounds:
  assumes "Async_inv a"
  shows "0 \<le> curr_size a" and "nat (curr_size a) \<le> length (tasks a)"
    and "curr_size a \<le> int (length (tasks a))" and "curr_size a \<le> 32"
    and "nat (curr_size a) \<le> 32"
  using assms by (auto simp: Async_inv_def size_inv_def MAX_FUNCTIONARRAY_SIZE_def)

lemma Async_inv_init: "Async_inv Async_init"
  by (simp add: Async_inv_def size_inv_def Async_init_def new_array_def is_pow2_def
      MAX_FUNCTIONARRAY_SIZE_def)

lemma adds_spec:
  "Async_inv a \<Longrightarrow>
   \<exists>a'. adds fws a = Some a' \<and> Async_inv a' \<and>
     curr_size a' = min 32 (curr_size a + int (length fws)) \<and>
     live a' = take 32 (live a @ fws)"
proof (induction fws arbitrary: a)
  case Nil
  from Async_inv_bounds[OF Nil] have "length (live a) \<le> 32" "curr_size a \<le> 32"
    by (simp_all add: live_def)
  then show ?case using Nil by simp
next
  case (Cons fw fws)
  note b = Async_inv_bounds[OF Cons.prems]
  show ?case
  proof (cases "curr_size a \<ge> MAX_FUNCTIONARRAY_SIZE")
    case True
    then have full: "curr_size a = 32" using b by (simp add: MAX_FUNCTIONARRAY_SIZE_def)
    then have len: "length (live a) = 32" using b by (simp add: live_def)
    from Cons.IH[OF Cons.prems] obtain a' where
      a': "adds fws a = Some a'" "Async_inv a'"
        "curr_size a' = min 32 (curr_size a + int (length fws))" "live a' = take 32 (live a @ fws)"
      by blast
    have "adds (fw # fws) a = Some a'" using add_full[OF True] a'(1) by simp
    then show ?thesis using a' full len by simp
  next
    case False
    then have lt: "curr_size a < MAX_FUNCTIONARRAY_SIZE" by simp
    from add_spec[OF Cons.prems lt, of fw] obtain a1 where
      a1: "add fw a = Some a1" "Async_inv a1" "curr_size a1 = curr_size a + 1" "live a1 = live a @ [fw]"
      by blast
    from Cons.IH[OF a1(2)] obtain a' where
      a': "adds fws a1 = Some a'" "Async_inv a'"
        "curr_size a' = min 32 (curr_size a1 + int (length fws))" "live a' = take 32 (live a1 @ fws)"
      by blast
    have "adds (fw # fws) a = Some a'" using a1(1) a'(1) by simp
    then show ?thesis using a' a1(3,4) by simp
  qed
qed

lemma get_within:
  "Async_inv a \<Longrightarrow> 0 \<le> index \<Longrightarrow> index < curr_size a \<Longrightarrow> get index a = Some (live a ! nat index)"
  using Async_inv_bounds[of a] by (auto simp: get_def size_A_def slot_def live_def)

lemma get_above:
  "Async_inv a \<Longrightarrow> 1 \<le> curr_size a \<Longrightarrow> curr_size a \<le> index \<Longrightarrow>
   get index a = Some (live a ! nat (curr_size a - 1))"
  using Async_inv_bounds[of a] by (auto simp: get_def size_A_def slot_def live_def)

lemma get_negative: "0 \<le> curr_size a \<Longrightarrow> index < 0 \<Longrightarrow> get index a = None"
  by (simp add: get_def size_A_def slot_def)

subsection \<open>Saturating offsets\<close>

lemma three_tasks_built:
  "adds [task_of (cb_after 0 0) 30, task_of (cb_after 0 0) 10, task_of (cb_after 0 0) 20] Async_init
   = Some three_tasks"
  by code_simp

lemma Async_inv_three_tasks: "Async_inv three_tasks"
  by code_simp

lemma uint_plus_no_wrap: "uint (x1::ulong) + uint x2 < 2 ^ 32 \<Longrightarrow> uint (x1 + x2) = uint x1 + uint x2"
  using uint_add_lem[of x1 x2] by simp

lemma sat_sub_uint: "uint (sat_sub d x) = max 0 (uint d - uint x)"
proof (cases "x \<le> d")
  case True
  then have "uint x \<le> uint d" by (simp add: word_le_def)
  then show ?thesis using True by (simp add: sat_sub_def uint_sub_lem[THEN iffD1])
next
  case False
  then have "uint d < uint x" by (simp add: word_le_def)
  then show ?thesis using False by (simp add: sat_sub_def)
qed

lemma sat_sub_twice:
  assumes "uint x1 + uint x2 < 2 ^ 32"
  shows "sat_sub (sat_sub d x1) x2 = sat_sub d (x1 + x2)"
proof -
  have "uint (sat_sub (sat_sub d x1) x2) = uint (sat_sub d (x1 + x2))"
    unfolding sat_sub_uint uint_plus_no_wrap[OF assms]
    using uint_ge_0[of x2] by linarith
  then show ?thesis by (simp only: word_uint_eq_iff)
qed

lemma offsetDelayBy_explicit:
  assumes "nat (curr_size a) \<le> length (tasks a)"
  shows "offsetDelayBy x a =
     Some (a\<lparr>tasks := map (\<lambda>t. t\<lparr>delay_time_us := sat_sub (delay_time_us t) x\<rparr>) (live a) @
                       drop (nat (curr_size a)) (tasks a)\<rparr>)"
proof -
  from offset_loop_spec[OF assms, of x 0] obtain r where
    r: "offset_loop (tasks a) (curr_size a) x 0 = Some r" "length r = length (tasks a)"
       "\<forall>j < length (tasks a). r ! j = (if int j < curr_size a
            then (tasks a ! j)\<lparr>delay_time_us := sat_sub (delay_time_us (tasks a ! j)) x\<rparr>
            else tasks a ! j)"
    by (auto simp: sat_sub_def)
  have 2: "take (nat (curr_size a)) r =
        map (\<lambda>t. t\<lparr>delay_time_us := sat_sub (delay_time_us t) x\<rparr>) (take (nat (curr_size a)) (tasks a))"
    using r(2,3) assms by (intro nth_equalityI) auto
  have 3: "drop (nat (curr_size a)) r = drop (nat (curr_size a)) (tasks a)"
    using r(2,3) assms by (intro nth_equalityI) auto
  have "r = take (nat (curr_size a)) r @ drop (nat (curr_size a)) r" by simp
  then have "r = map (\<lambda>t. t\<lparr>delay_time_us := sat_sub (delay_time_us t) x\<rparr>) (live a) @
                       drop (nat (curr_size a)) (tasks a)"
    unfolding 2 3 by (simp add: live_def)
  then show ?thesis using r(1) by (simp add: offsetDelayBy_def)
qed

lemma delays_offsetDelayBy:
  assumes "nat (curr_size a) \<le> length (tasks a)" "offsetDelayBy x a = Some a'"
  shows "delays a' = map (\<lambda>d. sat_sub d x) (delays a)"
    and "curr_size a' = curr_size a" and "m_size a' = m_size a"
    and "length (tasks a') = length (tasks a)"
  using assms(2) assms(1) unfolding offsetDelayBy_explicit[OF assms(1)]
  by (auto simp: delays_def live_def get_delay_def comp_def)

subsection \<open>The invariant through every operation\<close>

lemma Async_inv_same_shape:
  "Async_inv a \<Longrightarrow> m_size a' = m_size a \<Longrightarrow> curr_size a' = curr_size a \<Longrightarrow>
   length (tasks a') = length (tasks a) \<Longrightarrow> Async_inv a'"
  by (simp add: Async_inv_def size_inv_def)

lemma sort_A_inv:
  assumes "Async_inv a"
  shows "\<exists>a'. sort_A a = Some a' \<and> Async_inv a' \<and> curr_size a' = curr_size a"
proof -
  from sort_A_spec[OF Async_inv_bounds(1,2)[OF assms]] obtain a' where
    "sort_A a = Some a'" "m_size a' = m_size a" "curr_size a' = curr_size a"
    "length (tasks a') = length (tasks a)"
    by blast
  then show ?thesis using Async_inv_same_shape[OF assms] by blast
qed

lemma offsetDelayBy_inv:
  assumes "Async_inv a"
  shows "\<exists>a'. offsetDelayBy x a = Some a' \<and> Async_inv a' \<and> curr_size a' = curr_size a"
proof -
  from offsetDelayBy_spec[OF Async_inv_bounds(2)[OF assms]] obtain a' where
    "offsetDelayBy x a = Some a'" "m_size a' = m_size a" "curr_size a' = curr_size a"
    "length (tasks a') = length (tasks a)"
    by blast
  then show ?thesis using Async_inv_same_shape[OF assms] by blast
qed

lemma add_inv:
  assumes "Async_inv a"
  shows "\<exists>a'. add fw a = Some a' \<and> Async_inv a'"
proof (cases "curr_size a \<ge> MAX_FUNCTIONARRAY_SIZE")
  case True
  then show ?thesis using assms by (simp add: add_full)
next
  case False
  then have "curr_size a < MAX_FUNCTIONARRAY_SIZE" by simp
  from add_spec[OF assms this] show ?thesis by blast
qed

lemma remove_inv:
  assumes "Async_inv a"
  shows "\<exists>a'. remove index a = Some a' \<and> Async_inv a'"
proof (cases "0 \<le> index \<and> index < curr_size a")
  case True
  then have "0 \<le> index" "index < curr_size a" by simp_all
  from remove_spec[OF assms this] show ?thesis by blast
next
  case False
  then have "index \<ge> curr_size a \<or> index < 0" by auto
  then show ?thesis using assms by (simp add: remove_outside)
qed

lemma reschedule_inv:
  assumes "Async_inv a" and "reschedule r a = Some a1"
  shows "Async_inv a1"
proof -
  from assms(2) obtain ts1 v ts2 w where
    "put_slot (tasks a) 0 v = Some ts1" "put_slot ts1 0 w = Some ts2" "a1 = a\<lparr>tasks := ts2\<rparr>"
    by (auto simp: reschedule_def split: Option.bind_splits)
  then have "m_size a1 = m_size a" "curr_size a1 = curr_size a"
    "length (tasks a1) = length (tasks a)"
    by (auto simp: put_slot_def split: if_splits)
  then show ?thesis using Async_inv_same_shape[OF assms(1)] by blast
qed

lemma run_head_inv:
  assumes "Async_inv (reg s)" and "run_head hw s = Some (b, s')"
  shows "Async_inv (reg s')"
proof -
  from assms(2)[unfolded run_head_def Let_def bind_eq_Some_conv]
  obtain t0 res a1 a2 where
    t0: "slot (tasks (reg s)) 0 = Some t0" and
    a1: "(if fst res > 0 then reschedule (fst res) (reg s) else remove 0 (reg s)) = Some a1"
    and a2: "sort_A a1 = Some a2"
    and e: "Some (fst (micros hw (world s)),
              \<lparr>reg = a2, world = snd res, calls = calls s @ [(getStep t0, getId t0)]\<rparr>) = Some (b, s')"
    by blast
  from e have s': "reg s' = a2" by auto
  have "Async_inv a1"
  proof (cases "fst res > 0")
    case True
    with a1 show ?thesis using reschedule_inv[OF assms(1)] by simp
  next
    case False
    with a1 have "remove 0 (reg s) = Some a1" by simp
    then show ?thesis using remove_inv[OF assms(1), of 0] by simp
  qed
  from sort_A_inv[OF this] a2 s' show ?thesis by simp
qed

lemma pace_inv:
  assumes "Async_inv (reg s)" and "pace hw b s = Some fl"
  shows "Async_inv (reg (flow_state fl))"
proof (cases "curr_size (reg s) = 0")
  case True
  then show ?thesis using assms by (auto simp: pace_def)
next
  case False
  with assms(2) obtain x a where "offsetDelayBy x (reg s) = Some a" "reg (flow_state fl) = a"
    by (auto simp: pace_def Let_def split: Option.bind_splits if_splits)
  then show ?thesis using offsetDelayBy_inv[OF assms(1), of x] by simp
qed

lemma loop_body_inv:
  assumes "Async_inv (reg s)" and "loop_body hw s = Some fl"
  shows "Async_inv (reg (flow_state fl))"
proof -
  from assms(2) obtain r where r: "run_head hw s = Some r" "pace hw (fst r) (snd r) = Some fl"
    by (auto simp: loop_body_def split: Option.bind_splits)
  from r(1) have "run_head hw s = Some (fst r, snd r)" by simp
  from run_head_inv[OF assms(1) this] have "Async_inv (reg (snd r))" .
  from pace_inv[OF this r(2)] show ?thesis .
qed

lemma run_until_complete_inv:
  assumes "run_until_complete hw s = Some out"
  shows "Async_inv (reg s) \<longrightarrow>
         (\<forall>s'. out = Returned s' \<longrightarrow> Async_inv (reg s') \<and> curr_size (reg s') = 0)"
proof (rule run_until_complete.raw_induct
    [where P = "\<lambda>hw s out. Async_inv (reg s) \<longrightarrow>
         (\<forall>s'. out = Returned s' \<longrightarrow> Async_inv (reg s') \<and> curr_size (reg s') = 0)", OF _ assms])
  fix rec :: "'a arduino \<Rightarrow> 'a run_state \<Rightarrow> 'a run_state outcome option"
  fix hw s out
  assume IH: "\<And>hw s y. rec hw s = Some y \<Longrightarrow> Async_inv (reg s) \<longrightarrow>
         (\<forall>s'. y = Returned s' \<longrightarrow> Async_inv (reg s') \<and> curr_size (reg s') = 0)"
  assume eq: "(if curr_size (reg s) > 0 then
        (case loop_body hw s of
           None \<Rightarrow> Some Faulted
         | Some (Break s') \<Rightarrow> Some (Returned s')
         | Some (Continue s') \<Rightarrow> rec hw s')
      else Some (Returned s)) = Some out"
  show "Async_inv (reg s) \<longrightarrow>
         (\<forall>s'. out = Returned s' \<longrightarrow> Async_inv (reg s') \<and> curr_size (reg s') = 0)"
  proof (intro impI allI)
    fix s' assume inv: "Async_inv (reg s)" and out: "out = Returned s'"
    show "Async_inv (reg s') \<and> curr_size (reg s') = 0"
    proof (cases "curr_size (reg s) > 0")
      case False
      with eq out have "s' = s" by simp
      then show ?thesis using inv False Async_inv_bounds(1)[OF inv] by simp
    next
      case True
      show ?thesis
      proof (cases "loop_body hw s")
        case None
        with eq True out show ?thesis by simp
      next
        case (Some fl)
        note binv = loop_body_inv[OF inv Some]
        show ?thesis
        proof (cases fl)
          case (Break s1)
          with eq True Some out have e: "s' = s1" by simp
          from Some Break obtain r where "pace hw (fst r) (snd r) = Some (Break s1)"
            by (auto simp: loop_body_def split: Option.bind_splits)
          then have "curr_size (reg s1) = 0"
            by (auto simp: pace_def Let_def split: Option.bind_splits if_splits)
          then show ?thesis using binv Break e by simp
        next
          case (Continue s1)
          with eq True Some out have "rec hw s1 = Some (Returned s')" by simp
          from IH[OF this] binv Continue show ?thesis by simp
        qed
      qed
    qed
  qed
qed

subsection \<open>Unfolding the loop; a registry of one task\<close>

lemma run_step_continue:
  "curr_size (reg s) > 0 \<Longrightarrow> loop_body hw s = Some (Continue s') \<Longrightarrow>
   run_until_complete hw s = run_until_complete hw s'"
  by (subst run_until_complete.simps) simp

lemma run_step_break:
  "curr_size (reg s) > 0 \<Longrightarrow> loop_body hw s = Some (Break s') \<Longrightarrow>
   run_until_complete hw s = Some (Returned s')"
  by (subst run_until_complete.simps) simp

lemma loop_body_one_task: "loop_body hw_clock one_task_state = Some (Break one_task_done)"
  by code_simp

lemma run_one_task: "run_until_complete hw_clock one_task_state = Some (Returned one_task_done)"
  by (rule run_step_break[OF _ loop_body_one_task]) (simp add: one_task_state_def)

lemma sort_A_empty: "curr_size a = 0 \<Longrightarrow> sort_A a = Some a"
  by (simp add: sort_A_def sort_traced_def)

lemma sort_A_single: "curr_size a = 1 \<Longrightarrow> sort_A a = Some a"
  by (simp add: sort_A_def sort_traced_def sort_pass.simps[of _ 1])

lemma single_cases:
  assumes "single a cb k i"
  obtains t where "tasks a = [t]" "m_func t = Some cb" "step t = k" "id_tag t = i"
    "m_size a = 1" "curr_size a = 1"
  using assms by (auto simp: single_def split: list.splits)

lemma loop_body_single_resched:
  assumes "single (reg s) cb k i" and "fst (cb k i (snd (micros hw (world s)))) \<noteq> 0"
  shows "\<exists>s'. loop_body hw s = Some (Continue s') \<and> single (reg s') cb (k + 1) i \<and>
           calls s' = calls s @ [(k, i)]"
proof -
  from assms(1) obtain t where t: "tasks (reg s) = [t]" "m_func t = Some cb" "step t = k"
    "id_tag t = i" "m_size (reg s) = 1" "curr_size (reg s) = 1"
    by (rule single_cases)
  define res where "res = cb k i (snd (micros hw (world s)))"
  define t1 where "t1 = t\<lparr>delay_time_us := fst res, step := k + 1\<rparr>"
  define s1 where "s1 = \<lparr>reg = (reg s)\<lparr>tasks := [t1]\<rparr>, world = snd res, calls = calls s @ [(k, i)]\<rparr>"
  have pos: "0 < fst res" using assms(2) by (simp add: res_def word_greater_zero_iff)
  have rs: "reschedule (fst res) (reg s) = Some ((reg s)\<lparr>tasks := [t1]\<rparr>)"
    using t by (simp add: reschedule_def slot_def put_slot_def set_delay_def setStep_def
        getStep_def t1_def)
  have so: "sort_A ((reg s)\<lparr>tasks := [t1]\<rparr>) = Some ((reg s)\<lparr>tasks := [t1]\<rparr>)"
    using t by (intro sort_A_single) simp
  have rh: "run_head hw s = Some (fst (micros hw (world s)), s1)"
    using t pos rs so
    by (simp add: run_head_def Let_def run_def slot_def getStep_def getId_def res_def[symmetric]
        s1_def)
  have len: "nat (curr_size (reg s1)) \<le> length (tasks (reg s1))"
    using t by (simp add: s1_def)
  have od: "\<And>x. offsetDelayBy x (reg s1) =
      Some ((reg s)\<lparr>tasks := [t1\<lparr>delay_time_us := sat_sub (delay_time_us t1) x\<rparr>]\<rparr>)"
    unfolding offsetDelayBy_explicit[OF len] using t by (simp add: s1_def live_def)
  have sg: "\<And>x. single ((reg s)\<lparr>tasks := [t1\<lparr>delay_time_us := sat_sub (delay_time_us t1) x\<rparr>]\<rparr>) cb (k + 1) i"
    using t by (simp add: single_def t1_def)
  have "\<exists>s'. pace hw (fst (micros hw (world s))) s1 = Some (Continue s') \<and>
      single (reg s') cb (k + 1) i \<and> calls s' = calls s @ [(k, i)]"
  proof -
    have c: "curr_size (reg s1) \<noteq> 0" "slot (tasks (reg s1)) 0 = Some t1" "calls s1 = calls s @ [(k, i)]"
      using t by (simp_all add: s1_def slot_def)
    show ?thesis
      unfolding pace_def Let_def using c od sg by (simp del: not_le)
  qed
  then show ?thesis using rh by (simp add: loop_body_def)
qed

lemma loop_body_single_final:
  assumes "single (reg s) cb k i" and "fst (cb k i (snd (micros hw (world s)))) = 0"
  shows "\<exists>s'. loop_body hw s = Some (Break s') \<and> curr_size (reg s') = 0 \<and>
           calls s' = calls s @ [(k, i)]"
proof -
  from assms(1) obtain t where t: "tasks (reg s) = [t]" "m_func t = Some cb" "step t = k"
    "id_tag t = i" "m_size (reg s) = 1" "curr_size (reg s) = 1"
    by (rule single_cases)
  define res where "res = cb k i (snd (micros hw (world s)))"
  let ?a1 = "(reg s)\<lparr>tasks := [t], curr_size := 0\<rparr>"
  let ?s1 = "\<lparr>reg = ?a1, world = snd res, calls = calls s @ [(k, i)]\<rparr>"
  have z: "\<not> 0 < fst res" using assms(2) by (simp add: res_def)
  have so: "sort_A ?a1 = Some ?a1" by (rule sort_A_empty) simp
  have rm: "remove 0 (reg s) = Some ?a1"
    using t so by (simp add: remove_def slot_def put_slot_def)
  have rh: "run_head hw s = Some (fst (micros hw (world s)), ?s1)"
    using t z rm so
    by (simp add: run_head_def Let_def run_def slot_def getStep_def getId_def res_def[symmetric])
  have "pace hw (fst (micros hw (world s))) ?s1 = Some (Break ?s1)"
    by (simp add: pace_def)
  then show ?thesis using rh by (simp add: loop_body_def)
qed

lemma add_to_new:
  "add t Async_init = Some \<lparr>m_size = 1, m_permsize = 1, curr_size = 1, tasks = [t]\<rparr>"
  by (simp add: add_def Async_init_def new_array_def MAX_FUNCTIONARRAY_SIZE_def slot_def
      put_slot_def)

section \<open>The claims\<close>

text \<open>
  Claim C1: after a call of \<^verbatim>\<open>sort\<close> the live range is ascending by delay. The code
  does not achieve this. Three tasks with delays 1, 2, 3 are added to a new registry, so
  the live range is already ascending; \<^verbatim>\<open>sort\<close> returns it as 2, 1, 3. In the second pass
  \<^verbatim>\<open>smallestIndex\<close> is still 0 from the first, no later delay is below the delay in slot
  0, and the code swaps slot 1 with slot 0.
\<close>

theorem C1_sort_leaves_unsorted:
  "map_option delays
     (adds [task_of (cb_after 0 0) 1, task_of (cb_after 0 0) 2, task_of (cb_after 0 0) 3] Async_init)
     = Some [1, 2, 3] \<and>
   map_option delays
     (adds [task_of (cb_after 0 0) 1, task_of (cb_after 0 0) 2, task_of (cb_after 0 0) 3] Async_init
        \<bind> sort_A)
     = Some [2, 1, 3] \<and>
   map_option (\<lambda>a. get_delay (live a ! 0) True \<le> get_delay (live a ! 1) True)
     (adds [task_of (cb_after 0 0) 1, task_of (cb_after 0 0) 2, task_of (cb_after 0 0) 3] Async_init
        \<bind> sort_A)
     = Some False"
  by code_simp

text \<open>
  Claim C4: sorting twice gives the same sequence as sorting once. On the registry of
  delays 1, 2, 3 one call of \<^verbatim>\<open>sort\<close> gives 2, 1, 3 and a second call gives 1, 2, 3:
  the stale \<^verbatim>\<open>smallestIndex\<close> makes the result of one call not a fixed point.
\<close>

theorem C4_sort_twice_differs:
  "map_option delays
     (adds [task_of (cb_after 0 0) 1, task_of (cb_after 0 0) 2, task_of (cb_after 0 0) 3] Async_init
        \<bind> sort_A)
     = Some [2, 1, 3] \<and>
   map_option delays
     (adds [task_of (cb_after 0 0) 1, task_of (cb_after 0 0) 2, task_of (cb_after 0 0) 3] Async_init
        \<bind> sort_A \<bind> sort_A)
     = Some [1, 2, 3] \<and>
   (adds [task_of (cb_after 0 0) 1, task_of (cb_after 0 0) 2, task_of (cb_after 0 0) 3] Async_init
        \<bind> sort_A \<bind> sort_A)
     \<noteq> (adds [task_of (cb_after 0 0) 1, task_of (cb_after 0 0) 2, task_of (cb_after 0 0) 3] Async_init
        \<bind> sort_A)"
proof -
  let ?once = "adds [task_of (cb_after 0 0) 1, task_of (cb_after 0 0) 2, task_of (cb_after 0 0) 3]
      Async_init \<bind> sort_A"
  have 1: "map_option delays ?once = Some [2, 1, 3]" by code_simp
  have 2: "map_option delays (?once \<bind> sort_A) = Some [1, 2, 3]" by code_simp
  have "?once \<bind> sort_A \<noteq> ?once"
  proof
    assume "?once \<bind> sort_A = ?once"
    then have "map_option delays (?once \<bind> sort_A) = map_option delays ?once" by (rule arg_cong)
    then show False unfolding 1 2 by simp
  qed
  then show ?thesis using 1 2 by blast
qed

text \<open>
  Claim C10: \<^verbatim>\<open>sort\<close> only permutes the live tasks. It returns without fault, the
  multiset of live tasks is the same, \<^verbatim>\<open>curr_size\<close> and \<^verbatim>\<open>m_size\<close> are unchanged, and every
  slot index the code touches is below \<^verbatim>\<open>curr_size\<close>.
\<close>

theorem C10_sort_permutes_live_range:
  assumes "Async_inv a"
  shows "\<exists>a' touched. sort_traced a = Some (a', touched) \<and> sort_A a = Some a' \<and>
           mset (live a') = mset (live a) \<and> curr_size a' = curr_size a \<and>
           m_size a' = m_size a \<and> (\<forall>i \<in> set touched. int i < curr_size a)"
proof -
  note b = Async_inv_bounds(1,2)[OF assms]
  from sort_traced_spec[OF b] obtain ts' lg where
    r: "sort_traced a = Some (a\<lparr>tasks := ts'\<rparr>, lg)"
     "mset (take (nat (curr_size a)) ts') = mset (take (nat (curr_size a)) (tasks a))"
     "\<forall>i \<in> set lg. int i < curr_size a"
    by blast
  have "sort_A a = Some (a\<lparr>tasks := ts'\<rparr>)" by (simp add: sort_A_def r(1))
  then show ?thesis using r by (simp add: live_def)
qed

text \<open>Sorting the three example tasks.\<close>

theorem C10_sort_permutes_live_range_witness:
  "Async_inv three_tasks \<and>
   (\<exists>a' touched. sort_traced three_tasks = Some (a', touched) \<and> sort_A three_tasks = Some a' \<and>
      mset (live a') = {#task_of (cb_after 0 0) 30, task_of (cb_after 0 0) 10,
               task_of (cb_after 0 0) 20#} \<and> curr_size a' = 3 \<and>
      m_size a' = 4 \<and> (\<forall>i \<in> set touched. int i < 3))"
proof -
  have h1: "Async_inv three_tasks" by code_simp
  have l: "live three_tasks = [task_of (cb_after 0 0) 30, task_of (cb_after 0 0) 10,
               task_of (cb_after 0 0) 20]"
    by (simp add: live_def three_tasks_def)
  show ?thesis
    using C10_sort_permutes_live_range[OF h1] h1 l
    by (simp add: three_tasks_def)
qed

text \<open>
  Claim C5: after \<open>MAX_FUNCTIONARRAY_SIZE + 1 = 33\<close> calls of \<^verbatim>\<open>add\<close>, \<^verbatim>\<open>size()\<close> is 32, and
  an \<^verbatim>\<open>add\<close> beyond the cap changes nothing. Proved from any registry that satisfies
  the invariant (a new one does): the 33 calls all return, the registry then holds the
  first 32 of the tasks it had followed by the added ones, and one more \<^verbatim>\<open>add\<close> returns
  the registry as it is, with all its fields.
\<close>

theorem C5_add_at_capacity:
  assumes "Async_inv a" and "int (length fws) = MAX_FUNCTIONARRAY_SIZE + 1"
  shows "\<exists>a'. adds fws a = Some a' \<and> size_A a' = MAX_FUNCTIONARRAY_SIZE \<and>
           live a' = take (nat MAX_FUNCTIONARRAY_SIZE) (live a @ fws) \<and>
           add fw a' = Some a'"
proof -
  from adds_spec[OF assms(1), of fws] obtain a' where
    a': "adds fws a = Some a'" "curr_size a' = min 32 (curr_size a + int (length fws))"
      "live a' = take 32 (live a @ fws)"
    by blast
  have "curr_size a' = 32"
    using a'(2) assms(2) Async_inv_bounds[OF assms(1)] by (simp add: MAX_FUNCTIONARRAY_SIZE_def)
  then show ?thesis
    using a' by (simp add: size_A_def MAX_FUNCTIONARRAY_SIZE_def add_full)
qed

text \<open>Thirty-three tasks added to a new registry: thirty-two are kept.\<close>

theorem C5_add_at_capacity_witness:
  "Async_inv (Async_init :: ulong callback Async) \<and>
   int (length (replicate 33 (task_of (cb_after 0 0) 7))) = MAX_FUNCTIONARRAY_SIZE + 1 \<and>
   (\<exists>a'. adds (replicate 33 (task_of (cb_after 0 0) 7)) Async_init = Some a' \<and>
     size_A a' = 32 \<and> live a' = replicate 32 (task_of (cb_after 0 0) 7) \<and>
     add (task_of (cb_after 0 0) 9) a' = Some a')"
proof -
  have h1: "Async_inv (Async_init :: ulong callback Async)" by (rule Async_inv_init)
  have h2: "int (length (replicate 33 (task_of (cb_after 0 0) 7))) = MAX_FUNCTIONARRAY_SIZE + 1"
    by (simp add: MAX_FUNCTIONARRAY_SIZE_def)
  show ?thesis
    using C5_add_at_capacity[OF h1 h2, of "task_of (cb_after 0 0) 9"] h1 h2
    by (simp add: MAX_FUNCTIONARRAY_SIZE_def live_def Async_init_def)
qed

text \<open>
  Claim C6: for a registry of size \<open>n\<close> and \<open>0 \<le> index < n\<close>, \<^verbatim>\<open>remove(index)\<close> returns a
  registry of size \<open>n - 1\<close> whose live tasks are, as a multiset, the former ones without
  the task that was at \<open>index\<close>.
\<close>

theorem C6_remove_shrinks_by_one:
  assumes "Async_inv a" and "0 \<le> index" and "index < size_A a"
  shows "\<exists>a'. remove index a = Some a' \<and> size_A a' = size_A a - 1 \<and>
           mset (live a') = mset (live a) - {#live a ! nat index#}"
proof -
  from assms(3) have lt: "index < curr_size a" by (simp add: size_A_def)
  from remove_spec[OF assms(1,2) lt] obtain a' where
    "remove index a = Some a'" "curr_size a' = curr_size a - 1"
    "mset (live a') = mset (live a) - {#tasks a ! nat index#}"
    by blast
  moreover have "live a ! nat index = tasks a ! nat index"
    using assms(2) lt by (simp add: live_def)
  ultimately show ?thesis by (simp add: size_A_def)
qed

text \<open>Removing the middle one of three tasks.\<close>

theorem C6_remove_shrinks_by_one_witness:
  "Async_inv three_tasks \<and> (0::int) \<le> 1 \<and> 1 < size_A three_tasks \<and>
   (\<exists>a'. remove 1 three_tasks = Some a' \<and> size_A a' = 2 \<and>
      mset (live a') = {#task_of (cb_after 0 0) 30, task_of (cb_after 0 0) 20#})"
proof -
  have h1: "Async_inv three_tasks" by code_simp
  have h2: "(0::int) \<le> 1" by simp
  have h3: "1 < size_A three_tasks" by code_simp
  have l: "live three_tasks = [task_of (cb_after 0 0) 30, task_of (cb_after 0 0) 10,
               task_of (cb_after 0 0) 20]"
    by (simp add: live_def three_tasks_def)
  have "task_of (cb_after 0 0) 10 \<noteq> task_of (cb_after 0 0) 30"
    by (simp add: task_of_def set_delay_def function_ctor_def function_default_def)
  then show ?thesis
    using C6_remove_shrinks_by_one[OF h1 h2 h3] h1 h3 l
    by (simp add: size_A_def three_tasks_def)
qed

text \<open>
  Claim C7: \<^verbatim>\<open>get\<close> returns the last live task for every index out of range, negative
  ones included. The code tests only \<^verbatim>\<open>index >= size\<close>; with one task in the registry,
  \<^verbatim>\<open>get(-1)\<close> reads \<^verbatim>\<open>tasks[-1]\<close>, before the array. (For \<open>0 \<le> index < curr_size\<close> and for
  \<open>index \<ge> curr_size\<close> the claim holds: \<open>get_within\<close>, \<open>get_above\<close>.)
\<close>

theorem C7_get_negative_index_faults:
  "map_option size_A (adds [task_of (cb_after 0 0) 5] Async_init) = Some 1 \<and>
   (adds [task_of (cb_after 0 0) 5] Async_init \<bind> get (- 1)) = None"
  by code_simp

text \<open>
  Claim C9 says that \<^verbatim>\<open>offsetDelayBy(x1)\<close> followed by \<^verbatim>\<open>offsetDelayBy(x2)\<close> equals
  \<^verbatim>\<open>offsetDelayBy(x1 + x2)\<close> for all amounts. The amounts are \<^verbatim>\<open>unsigned long\<close>: with
  \<open>x1 = x2 = 2 ^ 31\<close> the sum wraps to 0. A task of delay 5 ends at 0 after the two
  calls, and keeps 5 after the single call.
\<close>

theorem C9_offsets_compose_counterexample:
  "map_option delays
     (adds [task_of (cb_after 0 0) 5] Async_init \<bind> offsetDelayBy 2147483648 \<bind> offsetDelayBy 2147483648)
     = Some [0] \<and>
   map_option delays
     (adds [task_of (cb_after 0 0) 5] Async_init \<bind> offsetDelayBy (2147483648 + 2147483648))
     = Some [5]"
  by code_simp

text \<open>
  Claim C9, amended: when \<open>x1 + x2\<close> does not exceed the largest \<^verbatim>\<open>unsigned long\<close>, the
  two calls leave the registry exactly as the single call with \<open>x1 + x2\<close> does, and a
  live task of delay \<open>d\<close> ends with delay \<open>max 0 (d - (x1 + x2))\<close>.
\<close>

theorem C9_offsets_compose_without_overflow:
  assumes "Async_inv a" and "uint x1 + uint x2 < 2 ^ 32"
  shows "(offsetDelayBy x1 a \<bind> offsetDelayBy x2) = offsetDelayBy (x1 + x2) a \<and>
         (\<exists>a'. offsetDelayBy (x1 + x2) a = Some a' \<and>
            map uint (delays a') = map (\<lambda>d. max 0 (uint d - (uint x1 + uint x2))) (delays a))"
proof -
  note b = Async_inv_bounds(1,2)[OF assms(1)]
  let ?f = "\<lambda>x (t :: 'a function_t). t\<lparr>delay_time_us := sat_sub (delay_time_us t) x\<rparr>"
  define a1 where "a1 = a\<lparr>tasks := map (?f x1) (live a) @ drop (nat (curr_size a)) (tasks a)\<rparr>"
  have 1: "offsetDelayBy x1 a = Some a1" unfolding a1_def by (rule offsetDelayBy_explicit[OF b(2)])
  have len1: "nat (curr_size a1) \<le> length (tasks a1)" using b by (simp add: a1_def live_def)
  have live1: "live a1 = map (?f x1) (live a)" using b by (simp add: a1_def live_def)
  have drop1: "drop (nat (curr_size a1)) (tasks a1) = drop (nat (curr_size a)) (tasks a)"
    using b by (simp add: a1_def live_def)
  have "offsetDelayBy x2 a1 = Some (a1\<lparr>tasks := map (?f x2) (live a1) @ drop (nat (curr_size a1)) (tasks a1)\<rparr>)"
    by (rule offsetDelayBy_explicit[OF len1])
  also have "a1\<lparr>tasks := map (?f x2) (live a1) @ drop (nat (curr_size a1)) (tasks a1)\<rparr>
      = a\<lparr>tasks := map (?f (x1 + x2)) (live a) @ drop (nat (curr_size a)) (tasks a)\<rparr>"
    unfolding live1 drop1 by (simp add: a1_def sat_sub_twice[OF assms(2)] comp_def)
  finally have 2: "offsetDelayBy x2 a1 = offsetDelayBy (x1 + x2) a"
    by (simp add: offsetDelayBy_explicit[OF b(2)])
  note u = uint_plus_no_wrap[OF assms(2)]
  obtain a' where 3: "offsetDelayBy (x1 + x2) a = Some a'"
    by (simp add: offsetDelayBy_explicit[OF b(2)])
  have "map uint (delays a') = map (\<lambda>d. max 0 (uint d - (uint x1 + uint x2))) (delays a)"
    using delays_offsetDelayBy(1)[OF b(2) 3] by (simp add: sat_sub_uint u comp_def)
  then show ?thesis using 1 2 3 by simp
qed

text \<open>Offsets 7 and 15 on delays 30, 10, 20.\<close>

theorem C9_offsets_compose_without_overflow_witness:
  "Async_inv three_tasks \<and> uint (7 :: ulong) + uint (15 :: ulong) < 2 ^ 32 \<and>
   (offsetDelayBy 7 three_tasks \<bind> offsetDelayBy 15) = offsetDelayBy (7 + 15) three_tasks \<and>
   (\<exists>a'. offsetDelayBy (7 + 15) three_tasks = Some a' \<and> map uint (delays a') = [8, 0, 0])"
proof -
  have h1: "Async_inv three_tasks" by code_simp
  have h2: "uint (7 :: ulong) + uint (15 :: ulong) < 2 ^ 32" by simp
  have d: "delays three_tasks = [30, 10, 20]" by code_simp
  show ?thesis
    using C9_offsets_compose_without_overflow[OF h1 h2] h1 d by simp
qed

text \<open>
  Claim C8: every public operation preserves \<open>0 \<le> curr_size \<le> m_size \<le> 32\<close> with
  \<^verbatim>\<open>m_size\<close> a power of two, so \<^verbatim>\<open>max_size() >= size()\<close> in every reachable state.
  \<open>Async_inv\<close> is that invariant together with the fact that \<^verbatim>\<open>tasks\<close> points to
  \<^verbatim>\<open>m_size\<close> slots. A new registry satisfies it; from a registry that satisfies it,
  \<^verbatim>\<open>add\<close>, \<^verbatim>\<open>remove\<close>, \<^verbatim>\<open>sort\<close> and \<^verbatim>\<open>offsetDelayBy\<close> return without fault in a registry
  that satisfies it; so does every iteration of the run loop that does not fault, and
  so does \<^verbatim>\<open>run_until_complete\<close> when it returns.
\<close>

theorem C8_invariant_preserved:
  fixes a :: "'f Async"
  assumes "Async_inv a" and "Async_inv (reg s)"
  shows "Async_inv (Async_init :: 'f Async) \<and>
         (\<exists>a'. add fw a = Some a' \<and> Async_inv a') \<and>
         (\<exists>a'. remove index a = Some a' \<and> Async_inv a') \<and>
         (\<exists>a'. sort_A a = Some a' \<and> Async_inv a') \<and>
         (\<exists>a'. offsetDelayBy x a = Some a' \<and> Async_inv a') \<and>
         (\<forall>fl. loop_body hw s = Some fl \<longrightarrow> Async_inv (reg (flow_state fl))) \<and>
         (\<forall>s'. run_until_complete hw s = Some (Returned s') \<longrightarrow> Async_inv (reg s')) \<and>
         0 \<le> curr_size a \<and> curr_size a \<le> m_size a \<and> m_size a \<le> MAX_FUNCTIONARRAY_SIZE \<and>
         (\<exists>k::nat. m_size a = 2 ^ k) \<and> size_A a \<le> max_size a"
proof -
  have 1: "\<exists>a'. add fw a = Some a' \<and> Async_inv a'" by (rule add_inv[OF assms(1)])
  have 2: "\<exists>a'. remove index a = Some a' \<and> Async_inv a'" by (rule remove_inv[OF assms(1)])
  have 3: "\<exists>a'. sort_A a = Some a' \<and> Async_inv a'" using sort_A_inv[OF assms(1)] by blast
  have 4: "\<exists>a'. offsetDelayBy x a = Some a' \<and> Async_inv a'"
    using offsetDelayBy_inv[OF assms(1)] by blast
  have 5: "\<forall>fl. loop_body hw s = Some fl \<longrightarrow> Async_inv (reg (flow_state fl))"
    using loop_body_inv[OF assms(2)] by blast
  have 6: "\<forall>s'. run_until_complete hw s = Some (Returned s') \<longrightarrow> Async_inv (reg s')"
    using run_until_complete_inv assms(2) by blast
  have 7: "0 \<le> curr_size a \<and> curr_size a \<le> m_size a \<and> m_size a \<le> MAX_FUNCTIONARRAY_SIZE \<and>
         (\<exists>k::nat. m_size a = 2 ^ k) \<and> size_A a \<le> max_size a"
    using assms(1) by (simp add: Async_inv_def size_inv_def is_pow2_iff size_A_def max_size_def)
  show ?thesis using Async_inv_init 1 2 3 4 5 6 7 by blast
qed

text \<open>The operations on the three example tasks, and the run of a single task.\<close>

theorem C8_invariant_preserved_witness:
  "Async_inv three_tasks \<and> Async_inv (reg one_task_state) \<and>
   (\<exists>a'. add (task_of (cb_after 0 0) 5) three_tasks = Some a' \<and> Async_inv a') \<and>
   (\<exists>a'. remove 1 three_tasks = Some a' \<and> Async_inv a') \<and>
   (\<exists>a'. sort_A three_tasks = Some a' \<and> Async_inv a') \<and>
   (\<exists>a'. offsetDelayBy 15 three_tasks = Some a' \<and> Async_inv a') \<and>
   loop_body hw_clock one_task_state = Some (Break one_task_done) \<and>
   Async_inv (reg (flow_state (Break one_task_done))) \<and>
   run_until_complete hw_clock one_task_state = Some (Returned one_task_done) \<and>
   Async_inv (reg one_task_done) \<and>
   size_A three_tasks \<le> max_size three_tasks"
proof -
  have h1: "Async_inv three_tasks" by code_simp
  have h2: "Async_inv (reg one_task_state)" by code_simp
  show ?thesis
    using C8_invariant_preserved[OF h1 h2, of "task_of (cb_after 0 0) 5" 1 15 hw_clock]
      h1 h2 loop_body_one_task run_one_task
    by simp
qed

text \<open>
  Claim C3: one task is registered in a new registry; its callback returns 500 at steps
  1, 2, 3 and 0 at step 4 (whatever the world is), and the task starts at step 1 as every
  newly built \<^verbatim>\<open>function\<close> does. Then \<^verbatim>\<open>run_until_complete\<close> returns, for every clock and
  every starting world; the callback has been invoked exactly four times, with steps
  1, 2, 3, 4 in that order, and the registry is empty.
\<close>

theorem C3_four_invocations_then_empty:
  assumes "m_func t = Some cb" and "getStep t = 1"
    and "\<forall>w. fst (cb 1 (getId t) w) = 500"
    and "\<forall>w. fst (cb 2 (getId t) w) = 500"
    and "\<forall>w. fst (cb 3 (getId t) w) = 500"
    and "\<forall>w. fst (cb 4 (getId t) w) = 0"
  shows "\<exists>a s'. add t Async_init = Some a \<and> size_A a = 1 \<and>
           run_until_complete hw \<lparr>reg = a, world = w0, calls = []\<rparr> = Some (Returned s') \<and>
           calls s' = [(1, getId t), (2, getId t), (3, getId t), (4, getId t)] \<and>
           size_A (reg s') = 0"
proof -
  define i where "i = getId t"
  define a where "a = \<lparr>m_size = 1, m_permsize = 1, curr_size = 1, tasks = [t]\<rparr>"
  define s0 where "s0 = \<lparr>reg = a, world = w0, calls = []\<rparr>"
  have ad: "add t Async_init = Some a" unfolding a_def by (rule add_to_new)
  have sg0: "single (reg s0) cb 1 i"
    using assms(1,2) by (simp add: s0_def a_def single_def i_def getStep_def getId_def)
  have nz: "\<And>k w. k = 1 \<or> k = 2 \<or> k = 3 \<Longrightarrow> fst (cb k i w) \<noteq> 0"
    using assms(3,4,5) unfolding i_def by auto
  from loop_body_single_resched[OF sg0 nz] obtain s1 where
    s1: "loop_body hw s0 = Some (Continue s1)" "single (reg s1) cb 2 i" "calls s1 = [(1, i)]"
    by (auto simp: s0_def)
  from loop_body_single_resched[OF s1(2) nz] obtain s2 where
    s2: "loop_body hw s1 = Some (Continue s2)" "single (reg s2) cb 3 i"
      "calls s2 = [(1, i), (2, i)]"
    using s1(3) by auto
  from loop_body_single_resched[OF s2(2) nz] obtain s3 where
    s3: "loop_body hw s2 = Some (Continue s3)" "single (reg s3) cb 4 i"
      "calls s3 = [(1, i), (2, i), (3, i)]"
    using s2(3) by auto
  have z: "fst (cb 4 i (snd (micros hw (world s3)))) = 0" using assms(6) by (simp add: i_def)
  from loop_body_single_final[OF s3(2) z] obtain s4 where
    s4: "loop_body hw s3 = Some (Break s4)" "curr_size (reg s4) = 0"
      "calls s4 = [(1, i), (2, i), (3, i), (4, i)]"
    using s3(3) by auto
  have pos: "curr_size (reg s0) > 0" "curr_size (reg s1) > 0" "curr_size (reg s2) > 0"
    "curr_size (reg s3) > 0"
    using sg0 s1(2) s2(2) s3(2) by (simp_all add: single_def)
  have "run_until_complete hw s0 = run_until_complete hw s1"
    by (rule run_step_continue[OF pos(1) s1(1)])
  also have "\<dots> = run_until_complete hw s2" by (rule run_step_continue[OF pos(2) s2(1)])
  also have "\<dots> = run_until_complete hw s3" by (rule run_step_continue[OF pos(3) s3(1)])
  also have "\<dots> = Some (Returned s4)" by (rule run_step_break[OF pos(4) s4(1)])
  finally have "run_until_complete hw \<lparr>reg = a, world = w0, calls = []\<rparr> = Some (Returned s4)"
    by (simp add: s0_def)
  then show ?thesis using ad s4(2,3) by (simp add: size_A_def a_def i_def)
qed

text \<open>The callback \<open>cb_steps\<close> on the clock world.\<close>

theorem C3_four_invocations_then_empty_witness:
  "m_func (task_of cb_steps 0) = Some cb_steps \<and> getStep (task_of cb_steps 0) = 1 \<and>
   (\<forall>w. fst (cb_steps 1 (getId (task_of cb_steps 0)) w) = 500) \<and>
   (\<forall>w. fst (cb_steps 2 (getId (task_of cb_steps 0)) w) = 500) \<and>
   (\<forall>w. fst (cb_steps 3 (getId (task_of cb_steps 0)) w) = 500) \<and>
   (\<forall>w. fst (cb_steps 4 (getId (task_of cb_steps 0)) w) = 0) \<and>
   (\<exists>a s'. add (task_of cb_steps 0) Async_init = Some a \<and> size_A a = 1 \<and>
      run_until_complete hw_clock \<lparr>reg = a, world = 0, calls = []\<rparr> = Some (Returned s') \<and>
      calls s' = [(1, 0), (2, 0), (3, 0), (4, 0)] \<and> size_A (reg s') = 0)"
proof -
  have h1: "m_func (task_of cb_steps 0) = Some cb_steps"
    by (simp add: task_of_def set_delay_def function_ctor_def)
  have h2: "getStep (task_of cb_steps 0) = 1"
    by (simp add: task_of_def set_delay_def function_ctor_def function_default_def getStep_def)
  have i: "getId (task_of cb_steps 0) = 0"
    by (simp add: task_of_def set_delay_def function_ctor_def function_default_def getId_def)
  have h3: "\<forall>w. fst (cb_steps 1 (getId (task_of cb_steps 0)) w) = 500"
    and h4: "\<forall>w. fst (cb_steps 2 (getId (task_of cb_steps 0)) w) = 500"
    and h5: "\<forall>w. fst (cb_steps 3 (getId (task_of cb_steps 0)) w) = 500"
    and h6: "\<forall>w. fst (cb_steps 4 (getId (task_of cb_steps 0)) w) = 0"
    by (simp_all add: cb_steps_def)
  show ?thesis
    using C3_four_invocations_then_empty[OF h1 h2 h3 h4 h5 h6, of hw_clock 0] h1 h2 h3 h4 h5 h6
    by (simp add: i)
qed

text \<open>
  Claim C2: when the time spent \<open>e\<close> is below the new head delay \<open>d\<close>, the loop sleeps
  for \<open>d - e\<close> and then decreases every live delay by \<open>d\<close>, the time that has passed
  since \<^verbatim>\<open>begin\<close>. The code does not: line 231 subtracts \<open>d - e\<close>, the time waited, and
  so drops the \<open>e\<close> microseconds the callback took, although the branch without a wait
  (line 227) subtracts all the time spent. In \<open>two_tasks_state\<close> the head task runs for
  10 microseconds and asks for 100, the other task is due in 1000: after the sort the
  delays are 100 and 1000, \<^verbatim>\<open>begin\<close> is 0 and \<open>e = 10\<close>. The iteration ends with the clock
  at 100 and the delays 10 and 910, where subtracting the head delay 100 gives 0 and 900.
\<close>

theorem C2_wait_branch_drops_time_spent:
  "map_option (\<lambda>r. (fst r, delays (reg (snd r)), fst (micros hw_clock (world (snd r))) - fst r))
     (run_head hw_clock two_tasks_state) = Some (0, [100, 1000], 10) \<and>
   map_option (\<lambda>fl. (delays (reg (flow_state fl)), world (flow_state fl)))
     (loop_body hw_clock two_tasks_state) = Some ([10, 910], 100) \<and>
   map (\<lambda>d. sat_sub d 100) [100, 1000] = [0, 900]"
  by code_simp

text \<open>
  What the branch with a wait does in general: when the registry is not empty after the
  head task has run and the registry is sorted (state \<open>s\<close>, head \<open>h\<close>), and the time
  spent is below the delay of \<open>h\<close>, the loop passes the difference to \<^verbatim>\<open>wait\<close>, then
  decreases every live delay by that difference, saturating at zero, and goes on to
  the next iteration.
\<close>

lemma wait_branch_offsets_by_time_waited:
  assumes "Async_inv (reg s0)"
    and "run_head hw s0 = Some (begin, s)"
    and "curr_size (reg s) \<noteq> 0"
    and "slot (tasks (reg s)) 0 = Some h"
    and "fst (micros hw (world s)) - begin < get_delay h True"
  shows "\<exists>a'. offsetDelayBy (get_delay h True - (fst (micros hw (world s)) - begin)) (reg s) = Some a' \<and>
           loop_body hw s0 =
             Some (Continue (s\<lparr>reg := a',
                world := wait hw (get_delay h True - (fst (micros hw (world s)) - begin)) True
                           (snd (micros hw (world s)))\<rparr>)) \<and>
           delays a' =
             map (\<lambda>d. sat_sub d (get_delay h True - (fst (micros hw (world s)) - begin)))
               (delays (reg s))"
proof -
  define e where "e = fst (micros hw (world s)) - begin"
  have inv: "Async_inv (reg s)" by (rule run_head_inv[OF assms(1,2)])
  note len = Async_inv_bounds(2)[OF inv]
  obtain a' where a': "offsetDelayBy (get_delay h True - e) (reg s) = Some a'"
    by (simp add: offsetDelayBy_explicit[OF len])
  have lt: "\<not> get_delay h True \<le> e" using assms(5) by (simp add: e_def)
  have "pace hw begin s =
      Some (Continue (s\<lparr>reg := a', world := wait hw (get_delay h True - e) True
                           (snd (micros hw (world s)))\<rparr>))"
    using assms(3,4) lt a' by (simp add: pace_def Let_def e_def[symmetric])
  then have "loop_body hw s0 =
      Some (Continue (s\<lparr>reg := a', world := wait hw (get_delay h True - e) True
                           (snd (micros hw (world s)))\<rparr>))"
    using assms(2) by (simp add: loop_body_def)
  then show ?thesis
    using a' delays_offsetDelayBy(1)[OF len a'] by (simp add: e_def)
qed

text \<open>The iteration of \<open>two_tasks_state\<close>: it waits 90 microseconds and subtracts 90.\<close>

lemma wait_branch_two_tasks:
  "Async_inv (reg two_tasks_state) \<and>
   run_head hw_clock two_tasks_state = Some (0, two_tasks_after_head) \<and>
   curr_size (reg two_tasks_after_head) \<noteq> 0 \<and>
   slot (tasks (reg two_tasks_after_head)) 0 = Some (setStep (task_of (cb_after 100 10) 100) 2) \<and>
   fst (micros hw_clock (world two_tasks_after_head)) - 0
     < get_delay (setStep (task_of (cb_after 100 10) 100) 2) True \<and>
   (\<exists>a'. offsetDelayBy 90 (reg two_tasks_after_head) = Some a' \<and>
      loop_body hw_clock two_tasks_state =
         Some (Continue (two_tasks_after_head\<lparr>reg := a', world := 100\<rparr>)) \<and>
      delays a' = [10, 910])"
proof -
  have h1: "Async_inv (reg two_tasks_state)" by code_simp
  have h2: "run_head hw_clock two_tasks_state = Some (0, two_tasks_after_head)" by code_simp
  have h3: "curr_size (reg two_tasks_after_head) \<noteq> 0" by code_simp
  have h4: "slot (tasks (reg two_tasks_after_head)) 0 = Some (setStep (task_of (cb_after 100 10) 100) 2)"
    by code_simp
  have h5: "fst (micros hw_clock (world two_tasks_after_head)) - 0
     < get_delay (setStep (task_of (cb_after 100 10) 100) 2) True"
    by code_simp
  have e: "fst (micros hw_clock (world two_tasks_after_head)) = 10"
    "get_delay (setStep (task_of (cb_after 100 10) 100) 2) True = 100"
    "delays (reg two_tasks_after_head) = [100, 1000]"
    "wait hw_clock 90 True (snd (micros hw_clock (world two_tasks_after_head))) = 100"
    "sat_sub 100 90 = 10" "sat_sub 1000 90 = 910"
    by code_simp+
  show ?thesis
    using wait_branch_offsets_by_time_waited[OF h1 h2 h3 h4 h5] h1 h2 h3 h4 h5
    by (simp add: e)
qed

end
